theory Spec2Isabelle
  imports Main
begin

section \<open>The B-tree of \<open>data_structures/binary_tree/b_tree.py\<close>\<close>

text \<open>
  The Python class \<open>BTree\<close> is a node object with four fields. Nodes refer to
  each other (children lists and the parent back-reference) and are mutated in
  place, so the model keeps an explicit store: a heap is the list of all node
  objects created so far, and a reference to a node is its index in that list.
  A new object is appended, so a fresh reference never aliases an older one.
  Keys and \<open>order\<close> are Python integers, hence \<open>int\<close>.
\<close>

type_synonym addr = nat

record node =
  order :: int
  keys :: "int list"
  children :: "addr list"
  parent :: "addr option"

type_synonym heap = "node list"

text \<open>
  Python exceptions are values. \<open>RecursionError\<close> is what a call chain deeper
  than the available fuel gives; \<open>BadRef\<close> stands for a reference that is not
  an object of the heap, which no Python run produces.
\<close>

datatype error = IndexError | ValueError | RecursionError | BadRef

definition load :: "heap \<Rightarrow> addr \<Rightarrow> error + node" where
  "load h a = (if a < length h then Inr (h ! a) else Inl BadRef)"

text \<open>\<open>BTree(order, keys, parent, children)\<close>: the constructor, returning the new heap
  and the reference of the new object.\<close>

definition BTree :: "heap \<Rightarrow> int \<Rightarrow> int list \<Rightarrow> addr option \<Rightarrow> addr list \<Rightarrow> heap \<times> addr" where
  "BTree h ord ks par cs =
     (h @ [\<lparr>order = ord, keys = ks, children = cs, parent = par\<rparr>], length h)"

subsection \<open>Python list indexing\<close>

text \<open>\<open>xs[i]\<close>, \<open>xs[i] = v\<close> and \<open>del xs[i]\<close> with Python's negative indices and
  its IndexError.\<close>

definition py_pos :: "'a list \<Rightarrow> int \<Rightarrow> error + nat" where
  "py_pos xs i =
     (let n = int (length xs); j = (if i < 0 then n + i else i)
      in if 0 \<le> j \<and> j < n then Inr (nat j) else Inl IndexError)"

definition py_get :: "'a list \<Rightarrow> int \<Rightarrow> error + 'a" where
  "py_get xs i = (case py_pos xs i of Inl e \<Rightarrow> Inl e | Inr j \<Rightarrow> Inr (xs ! j))"

definition py_set :: "'a list \<Rightarrow> int \<Rightarrow> 'a \<Rightarrow> error + 'a list" where
  "py_set xs i v = (case py_pos xs i of Inl e \<Rightarrow> Inl e | Inr j \<Rightarrow> Inr (xs[j := v]))"

definition py_del :: "'a list \<Rightarrow> int \<Rightarrow> error + 'a list" where
  "py_del xs i =
     (case py_pos xs i of Inl e \<Rightarrow> Inl e | Inr j \<Rightarrow> Inr (take j xs @ drop (Suc j) xs))"

text \<open>\<open>xs.index(x)\<close>: the first position of \<open>x\<close>, ValueError when there is none.\<close>

fun index_from :: "'a list \<Rightarrow> 'a \<Rightarrow> nat \<Rightarrow> error + nat" where
  "index_from [] x i = Inl ValueError"
| "index_from (y # ys) x i = (if y = x then Inr i else index_from ys x (Suc i))"

definition py_index :: "'a list \<Rightarrow> 'a \<Rightarrow> error + nat" where
  "py_index xs x = index_from xs x 0"

subsection \<open>The key scan shared by search, insertion and deletion\<close>

text \<open>
  \<open>__contains__\<close>, \<open>insert\<close> and \<open>remove\<close> all run the same loop over the keys:
  at each index, first test equality, then test \<open>keys[i] > value\<close>, and leave the
  loop at the first test that succeeds.
\<close>

datatype scan = Found nat | Greater nat | Exhausted

fun scan_from :: "int list \<Rightarrow> int \<Rightarrow> nat \<Rightarrow> scan" where
  "scan_from [] v i = Exhausted"
| "scan_from (k # ks) v i =
     (if k = v then Found i else if k > v then Greater i else scan_from ks v (Suc i))"

definition scan_keys :: "int list \<Rightarrow> int \<Rightarrow> scan" where
  "scan_keys ks v = scan_from ks v 0"

subsection \<open>Search\<close>

text \<open>
  \<open>__contains__\<close>. Children are references in this model, never \<open>None\<close>, so the
  test \<open>self.children[i] is None\<close> of the source is always false here.
\<close>

fun contains :: "nat \<Rightarrow> heap \<Rightarrow> addr \<Rightarrow> int \<Rightarrow> error + bool" where
  "contains 0 h a v = Inl RecursionError"
| "contains (Suc n) h a v =
     (case load h a of Inl e \<Rightarrow> Inl e | Inr nd \<Rightarrow>
        (case scan_keys (keys nd) v of
           Found i \<Rightarrow> Inr True
         | Greater i \<Rightarrow>
             if children nd = [] then Inr False
             else if i < length (children nd) then contains n h (children nd ! i) v
             else Inl IndexError
         | Exhausted \<Rightarrow>
             if children nd = [] then Inr False
             else contains n h (last (children nd)) v))"

subsection \<open>Insertion\<close>

text \<open>\<open>_insert_fix_parent_refs\<close>: every child of \<open>a\<close> gets \<open>a\<close> as its parent.\<close>

definition set_parent :: "addr \<Rightarrow> heap \<Rightarrow> addr \<Rightarrow> heap" where
  "set_parent a h c = (if c < length h then h[c := (h ! c)\<lparr>parent := Some a\<rparr>] else h)"

definition insert_fix_parent_refs :: "heap \<Rightarrow> addr \<Rightarrow> error + heap" where
  "insert_fix_parent_refs h a =
     (case load h a of Inl e \<Rightarrow> Inl e | Inr nd \<Rightarrow> Inr (foldl (set_parent a) h (children nd)))"

text \<open>The position at which \<open>_insert_recurse\<close> puts the median: the first index
  whose key is greater, or none (the \<open>else\<close> of the \<open>for\<close>).\<close>

fun first_greater :: "int list \<Rightarrow> int \<Rightarrow> nat \<Rightarrow> nat option" where
  "first_greater [] m i = None"
| "first_greater (k # ks) m i = (if k > m then Some i else first_greater ks m (Suc i))"

text \<open>
  \<open>_insert_median_split\<close> and \<open>_insert_recurse\<close> call each other while the split
  moves up the tree. The fuel bounds the depth of that call chain.
  \<open>_insert_recurse\<close> builds its two new nodes from the key lists only: the
  children partitions computed by \<open>_insert_median_split\<close> are not passed to it.
\<close>

fun insert_median_split :: "nat \<Rightarrow> heap \<Rightarrow> addr \<Rightarrow> error + heap"
and insert_recurse :: "nat \<Rightarrow> heap \<Rightarrow> addr \<Rightarrow> int \<Rightarrow> int list \<Rightarrow> int list \<Rightarrow> error + heap"
where
  "insert_median_split 0 h a = Inl RecursionError"
| "insert_median_split (Suc n) h a =
     (case load h a of Inl e \<Rightarrow> Inl e | Inr nd \<Rightarrow>
        let median_index = length (keys nd) div 2 in
        if median_index \<ge> length (keys nd) then Inl IndexError
        else
          let median = keys nd ! median_index;
              left = take median_index (keys nd);
              right = drop (Suc median_index) (keys nd);
              left_children = take (Suc median_index) (children nd);
              right_children = drop (Suc median_index) (children nd)
          in (case parent nd of
                None \<Rightarrow>
                  let (h1, l) = BTree h (order nd) left (Some a) left_children;
                      (h2, r) = BTree h1 (order nd) right (Some a) right_children;
                      h3 = h2[a := nd\<lparr>keys := [median], children := [l, r]\<rparr>]
                  in (case insert_fix_parent_refs h3 l of Inl e \<Rightarrow> Inl e
                      | Inr h4 \<Rightarrow> insert_fix_parent_refs h4 r)
              | Some p \<Rightarrow> insert_recurse n h p median left right))"
| "insert_recurse 0 h a median left right = Inl RecursionError"
| "insert_recurse (Suc n) h a median left right =
     (case load h a of Inl e \<Rightarrow> Inl e | Inr nd \<Rightarrow>
        let (h1, l) = BTree h (order nd) left (Some a) [];
            (h2, r) = BTree h1 (order nd) right (Some a) [];
            nd' = (case first_greater (keys nd) median 0 of
                     Some i \<Rightarrow>
                       nd\<lparr>keys := take i (keys nd) @ [median] @ drop i (keys nd),
                          children := take i (children nd) @ [l, r] @ drop (Suc i) (children nd)\<rparr>
                   | None \<Rightarrow>
                       nd\<lparr>keys := keys nd @ [median],
                          children := butlast (children nd) @ [l, r]\<rparr>);
            h3 = h2[a := nd']
        in if int (length (keys nd')) > order nd' then insert_median_split n h3 a
           else Inr h3)"

text \<open>\<open>insert\<close>: the result is the returned boolean and the heap after the call.\<close>

fun insert_bt :: "nat \<Rightarrow> heap \<Rightarrow> addr \<Rightarrow> int \<Rightarrow> error + (bool \<times> heap)" where
  "insert_bt 0 h a v = Inl RecursionError"
| "insert_bt (Suc n) h a v =
     (case load h a of Inl e \<Rightarrow> Inl e | Inr nd \<Rightarrow>
        if children nd \<noteq> [] then
          (case scan_keys (keys nd) v of
             Found i \<Rightarrow> Inr (False, h)
           | Greater i \<Rightarrow>
               if i < length (children nd) then insert_bt n h (children nd ! i) v
               else Inl IndexError
           | Exhausted \<Rightarrow> insert_bt n h (last (children nd)) v)
        else
          (case scan_keys (keys nd) v of
             Found i \<Rightarrow> Inr (False, h)
           | Greater i \<Rightarrow>
               let nd' = nd\<lparr>keys := take i (keys nd) @ [v] @ drop i (keys nd)\<rparr>;
                   h1 = h[a := nd']
               in if int (length (keys nd')) > order nd'
                  then (case insert_median_split n h1 a of Inl e \<Rightarrow> Inl e
                        | Inr h2 \<Rightarrow> Inr (True, h2))
                  else Inr (True, h1)
           | Exhausted \<Rightarrow>
               let nd' = nd\<lparr>keys := keys nd @ [v]\<rparr>;
                   h1 = h[a := nd']
               in if int (length (keys nd')) > order nd'
                  then (case insert_median_split n h1 a of Inl e \<Rightarrow> Inl e
                        | Inr h2 \<Rightarrow> Inr (True, h2))
                  else Inr (True, h1)))"

text \<open>A fresh tree \<open>BTree(order)\<close> is one empty root at reference 0.\<close>

definition empty_tree :: "int \<Rightarrow> heap" where
  "empty_tree ord = fst (BTree [] ord [] None [])"

text \<open>Inserting a list of values one after the other into the tree rooted at
  \<open>a\<close>; the booleans are dropped as the list comprehension of the tests drops
  them.\<close>

fun insert_all :: "nat \<Rightarrow> heap \<Rightarrow> addr \<Rightarrow> int list \<Rightarrow> error + heap" where
  "insert_all n h a [] = Inr h"
| "insert_all n h a (v # vs) =
     (case insert_bt n h a v of Inl e \<Rightarrow> Inl e | Inr (b, h') \<Rightarrow> insert_all n h' a vs)"

subsection \<open>Navigation helpers\<close>

definition and_then :: "error + 'a \<Rightarrow> ('a \<Rightarrow> error + 'b) \<Rightarrow> error + 'b" where
  "and_then m f = (case m of Inl e \<Rightarrow> Inl e | Inr x \<Rightarrow> f x)"

fun maximum :: "nat \<Rightarrow> heap \<Rightarrow> addr \<Rightarrow> error + int" where
  "maximum 0 h a = Inl RecursionError"
| "maximum (Suc n) h a =
     and_then (load h a) (\<lambda>nd.
       if children nd \<noteq> [] then maximum n h (last (children nd))
       else py_get (keys nd) (- 1))"

fun minimum :: "nat \<Rightarrow> heap \<Rightarrow> addr \<Rightarrow> error + int" where
  "minimum 0 h a = Inl RecursionError"
| "minimum (Suc n) h a =
     and_then (load h a) (\<lambda>nd.
       if children nd \<noteq> [] then minimum n h (hd (children nd))
       else py_get (keys nd) 0)"

definition num_children :: "heap \<Rightarrow> addr \<Rightarrow> error + nat" where
  "num_children h a = and_then (load h a) (\<lambda>nd. Inr (length (children nd)))"

text \<open>The sibling properties return \<open>None\<close> or a reference.\<close>

definition left_sibling :: "heap \<Rightarrow> addr \<Rightarrow> error + addr option" where
  "left_sibling h a =
     and_then (load h a) (\<lambda>nd.
       case parent nd of
         None \<Rightarrow> Inr None
       | Some p \<Rightarrow>
           and_then (load h p) (\<lambda>pn.
           and_then (py_index (children pn) a) (\<lambda>index.
             if index = 0 then Inr None
             else and_then (py_get (children pn) (int index - 1)) (\<lambda>s. Inr (Some s)))))"

definition right_sibling :: "heap \<Rightarrow> addr \<Rightarrow> error + addr option" where
  "right_sibling h a =
     and_then (load h a) (\<lambda>nd.
       case parent nd of
         None \<Rightarrow> Inr None
       | Some p \<Rightarrow>
           and_then (load h p) (\<lambda>pn.
           and_then (py_index (children pn) a) (\<lambda>index.
             if int index = int (length (children pn)) - 1 then Inr None
             else and_then (py_get (children pn) (int index + 1)) (\<lambda>s. Inr (Some s)))))"

subsection \<open>Deletion\<close>

text \<open>
  The branch \<open>_remove_rebalance\<close> takes. A sibling has excess capacity, for the
  source, when its number of children exceeds \<open>order\<close>. The \<open>print(self)\<close> at
  the head of the method only writes to standard output and is left out.
\<close>

datatype branch = NoParent | RotateRight | RotateLeft | CombineWithLeft | CombineRightSibling

definition exceeds_order :: "heap \<Rightarrow> int \<Rightarrow> addr option \<Rightarrow> error + bool" where
  "exceeds_order h ord s =
     (case s of
        None \<Rightarrow> Inr False
      | Some b \<Rightarrow> and_then (num_children h b) (\<lambda>k. Inr (int k > ord)))"

definition rebalance_branch :: "heap \<Rightarrow> addr \<Rightarrow> error + branch" where
  "rebalance_branch h a =
     and_then (load h a) (\<lambda>nd.
       case parent nd of
         None \<Rightarrow> Inr NoParent
       | Some p \<Rightarrow>
           and_then (left_sibling h a) (\<lambda>ls.
           and_then (exceeds_order h (order nd) ls) (\<lambda>left_excess.
             if left_excess then Inr RotateRight
             else
               and_then (right_sibling h a) (\<lambda>rs.
               and_then (exceeds_order h (order nd) rs) (\<lambda>right_excess.
                 if right_excess then Inr RotateLeft
                 else if ls \<noteq> None then Inr CombineWithLeft
                 else Inr CombineRightSibling)))))"

text \<open>
  \<open>remove\<close> returns \<open>True\<close>, \<open>False\<close> or, where the method runs off its end
  without a \<open>return\<close>, Python's \<open>None\<close>: the result is a \<open>bool option\<close>. The
  helpers return nothing, that is \<open>None\<close>, too.

  \<open>remove\<close>, \<open>_remove_rebalance\<close>, the two rotations and \<open>_remove_combine_left\<close>
  call each other. Each method body below is written once, with the calls it
  makes to the other methods going through \<open>call\<close>, and \<open>run\<close> ties them
  together: a call with fuel \<open>Suc n\<close> runs the body of the method with \<open>call\<close>
  being \<open>run n\<close>. Each statement reads the nodes again from the current heap, so
  the model follows the source also where two of the references coincide.
\<close>

datatype invocation =
    Remove addr int
  | RemoveRebalance addr
  | RemoveRotateLeft addr addr
  | RemoveRotateRight addr addr
  | RemoveCombineLeft addr "addr option"

type_synonym outcome = "error + (bool option \<times> heap)"

definition remove_body :: "nat \<Rightarrow> (invocation \<Rightarrow> heap \<Rightarrow> outcome) \<Rightarrow> heap \<Rightarrow> addr \<Rightarrow> int \<Rightarrow> outcome" where
  "remove_body n call h a v =
     and_then (load h a) (\<lambda>nd.
       if children nd \<noteq> [] then
         (case scan_keys (keys nd) v of
            Found i \<Rightarrow>
              and_then (py_get (children nd) (int i)) (\<lambda>c.
              and_then (maximum n h c) (\<lambda>pred.
                call (Remove c pred) (h[a := nd\<lparr>keys := (keys nd)[i := pred]\<rparr>])))
          | Greater i \<Rightarrow>
              and_then (py_get (children nd) (int i)) (\<lambda>c. call (Remove c v) h)
          | Exhausted \<Rightarrow> call (Remove (last (children nd)) v) h)
       else
         (case scan_keys (keys nd) v of
            Found i \<Rightarrow>
              let nd' = nd\<lparr>keys := remove1 v (keys nd)\<rparr>;
                  h1 = h[a := nd']
              in if int (length (keys nd')) < order nd' div 2
                 then and_then (call (RemoveRebalance a) h1) (\<lambda>(r, h2). Inr (Some True, h2))
                 else Inr (Some True, h1)
          | Greater i \<Rightarrow> Inr (Some False, h)
          | Exhausted \<Rightarrow> Inr (None, h)))"

definition remove_rebalance_body :: "(invocation \<Rightarrow> heap \<Rightarrow> outcome) \<Rightarrow> heap \<Rightarrow> addr \<Rightarrow> outcome" where
  "remove_rebalance_body call h a =
     and_then (rebalance_branch h a) (\<lambda>b.
     and_then (load h a) (\<lambda>nd.
       case parent nd of
         None \<Rightarrow> Inr (None, h)
       | Some p \<Rightarrow>
           (case b of
              NoParent \<Rightarrow> Inr (None, h)
            | RotateRight \<Rightarrow> and_then (call (RemoveRotateRight p a) h) (\<lambda>(r, h'). Inr (None, h'))
            | RotateLeft \<Rightarrow> and_then (call (RemoveRotateLeft p a) h) (\<lambda>(r, h'). Inr (None, h'))
            | CombineWithLeft \<Rightarrow> call (RemoveCombineLeft p (Some a)) h
            | CombineRightSibling \<Rightarrow>
                and_then (right_sibling h a) (\<lambda>rs. call (RemoveCombineLeft p rs) h))))"

definition remove_rotate_left_body ::
  "nat \<Rightarrow> (invocation \<Rightarrow> heap \<Rightarrow> outcome) \<Rightarrow> heap \<Rightarrow> addr \<Rightarrow> addr \<Rightarrow> outcome" where
  "remove_rotate_left_body n call h p dest =
     and_then (load h p) (\<lambda>pn.
     and_then (py_index (children pn) dest) (\<lambda>i.
     let index = int i in
     and_then (py_get (keys pn) index) (\<lambda>sep.
     and_then (insert_bt n h dest sep) (\<lambda>(b, h1).
     and_then (load h1 p) (\<lambda>pn1.
     and_then (py_get (children pn1) (index + 1)) (\<lambda>c.
     and_then (minimum n h1 c) (\<lambda>m.
     and_then (py_set (keys pn1) index m) (\<lambda>ks.
     let h2 = h1[p := pn1\<lparr>keys := ks\<rparr>] in
     and_then (load h2 p) (\<lambda>pn2.
     and_then (py_get (children pn2) (index + 1)) (\<lambda>c2.
     and_then (py_get (keys pn2) index) (\<lambda>k.
     and_then (call (Remove c2 k) h2) (\<lambda>(r, h3). Inr (None, h3)))))))))))))"

definition remove_rotate_right_body ::
  "nat \<Rightarrow> (invocation \<Rightarrow> heap \<Rightarrow> outcome) \<Rightarrow> heap \<Rightarrow> addr \<Rightarrow> addr \<Rightarrow> outcome" where
  "remove_rotate_right_body n call h p dest =
     and_then (load h p) (\<lambda>pn.
     and_then (py_index (children pn) dest) (\<lambda>i.
     let index = int i - 1 in
     and_then (py_get (keys pn) index) (\<lambda>sep.
     and_then (insert_bt n h dest sep) (\<lambda>(b, h1).
     and_then (load h1 p) (\<lambda>pn1.
     and_then (py_get (children pn1) index) (\<lambda>c.
     and_then (maximum n h1 c) (\<lambda>m.
     and_then (py_set (keys pn1) index m) (\<lambda>ks.
     let h2 = h1[p := pn1\<lparr>keys := ks\<rparr>] in
     and_then (load h2 p) (\<lambda>pn2.
     and_then (py_get (children pn2) index) (\<lambda>c2.
     and_then (py_get (keys pn2) index) (\<lambda>k.
     and_then (call (Remove c2 k) h2) (\<lambda>(r, h3). Inr (None, h3)))))))))))))"

definition remove_combine_left_body ::
  "(invocation \<Rightarrow> heap \<Rightarrow> outcome) \<Rightarrow> heap \<Rightarrow> addr \<Rightarrow> addr option \<Rightarrow> outcome" where
  "remove_combine_left_body call h p child =
     and_then (load h p) (\<lambda>pn.
     and_then (case child of None \<Rightarrow> Inl ValueError
               | Some c \<Rightarrow> and_then (py_index (children pn) c) (\<lambda>i. Inr (c, i))) (\<lambda>(c, i).
     let index = int i - 1 in
     and_then (py_get (children pn) index) (\<lambda>left.
     and_then (py_get (keys pn) index) (\<lambda>sep.
     and_then (load h left) (\<lambda>ln.
     let h1 = h[left := ln\<lparr>keys := keys ln @ [sep]\<rparr>] in
     and_then (load h1 c) (\<lambda>cn1.
     and_then (load h1 left) (\<lambda>ln1.
     let h2 = h1[left := ln1\<lparr>keys := keys ln1 @ keys cn1\<rparr>] in
     and_then (load h2 c) (\<lambda>cn2.
     and_then (load h2 left) (\<lambda>ln2.
     let h3 = h2[left := ln2\<lparr>children := children ln2 @ children cn2\<rparr>] in
     and_then (insert_fix_parent_refs h3 left) (\<lambda>h4.
     and_then (load h4 p) (\<lambda>pn4.
     and_then (py_del (keys pn4) index) (\<lambda>ks.
     let h5 = h4[p := pn4\<lparr>keys := ks\<rparr>] in
     and_then (load h5 p) (\<lambda>pn5.
       if int (length (keys pn5)) < order pn5 div 2 then call (RemoveRebalance p) h5
       else Inr (None, h5))))))))))))))"

primrec run :: "nat \<Rightarrow> invocation \<Rightarrow> heap \<Rightarrow> outcome" where
  "run 0 m h = Inl RecursionError"
| "run (Suc n) m h =
     (case m of
        Remove a v \<Rightarrow> remove_body n (run n) h a v
      | RemoveRebalance a \<Rightarrow> remove_rebalance_body (run n) h a
      | RemoveRotateLeft p dest \<Rightarrow> remove_rotate_left_body n (run n) h p dest
      | RemoveRotateRight p dest \<Rightarrow> remove_rotate_right_body n (run n) h p dest
      | RemoveCombineLeft p child \<Rightarrow> remove_combine_left_body (run n) h p child)"

definition remove_bt :: "nat \<Rightarrow> heap \<Rightarrow> addr \<Rightarrow> int \<Rightarrow> outcome" where
  "remove_bt n h a v = run n (Remove a v) h"

definition remove_rebalance :: "nat \<Rightarrow> heap \<Rightarrow> addr \<Rightarrow> outcome" where
  "remove_rebalance n h a = run n (RemoveRebalance a) h"

definition remove_combine_left :: "nat \<Rightarrow> heap \<Rightarrow> addr \<Rightarrow> addr option \<Rightarrow> outcome" where
  "remove_combine_left n h p child = run n (RemoveCombineLeft p child) h"

section \<open>Predicates used in the statements\<close>

text \<open>A sibling that is absent or has no children, as \<open>num_children\<close> reports it.\<close>

definition childless :: "heap \<Rightarrow> addr option \<Rightarrow> bool" where
  "childless h s = (case s of None \<Rightarrow> True | Some b \<Rightarrow> num_children h b = Inr 0)"

subsection \<open>Well-formed trees\<close>

text \<open>
  The invariants of the data model, read off a heap. A bound \<open>None\<close> is a
  missing bound. \<open>keys_between lo ks hi\<close>: the keys are strictly increasing
  and lie strictly between the bounds.
\<close>

definition above :: "int option \<Rightarrow> int \<Rightarrow> bool" where
  "above lo k = (case lo of None \<Rightarrow> True | Some l \<Rightarrow> l < k)"

definition below :: "int option \<Rightarrow> int \<Rightarrow> bool" where
  "below hi k = (case hi of None \<Rightarrow> True | Some u \<Rightarrow> k < u)"

definition keys_between :: "int option \<Rightarrow> int list \<Rightarrow> int option \<Rightarrow> bool" where
  "keys_between lo ks hi = (sorted_wrt (<) ks \<and> list_all (\<lambda>k. above lo k \<and> below hi k) ks)"

text \<open>
  \<open>kids P lo ks cs hi\<close>: there is one more child than keys, and \<open>P\<close> holds of
  every child with the bounds the keys around it give: child \<open>i\<close> lies between
  key \<open>i - 1\<close> and key \<open>i\<close>, the first child above \<open>lo\<close>, the last below \<open>hi\<close>.
\<close>

fun kids :: "(int option \<Rightarrow> int option \<Rightarrow> addr \<Rightarrow> bool) \<Rightarrow>
    int option \<Rightarrow> int list \<Rightarrow> addr list \<Rightarrow> int option \<Rightarrow> bool" where
  "kids P lo [] [c] hi = P lo hi c"
| "kids P lo (k # ks) (c # cs) hi = (P lo (Some k) c \<and> kids P (Some k) ks cs hi)"
| "kids P lo ks cs hi = False"

definition lower :: "int option \<Rightarrow> int list \<Rightarrow> nat \<Rightarrow> int option" where
  "lower lo ks i = (if i = 0 then lo else Some (ks ! (i - 1)))"

definition upper :: "int list \<Rightarrow> int option \<Rightarrow> nat \<Rightarrow> int option" where
  "upper ks hi i = (if i < length ks then Some (ks ! i) else hi)"

text \<open>
  \<open>wf_gen n h ord cap par lo hi a\<close>: the tree at \<open>a\<close> has height at most \<open>n\<close>;
  every node of it is an object of the heap with order \<open>ord\<close>, with its parent
  reference pointing to the node that has it as a child (\<open>par\<close> for \<open>a\<close>
  itself), with strictly increasing keys inside the range its position gives
  it, at most \<open>cap\<close> of them, and with no child or one child more than keys.
  The capacity is a function of the node so that the state in the middle of an
  insertion, where one node holds one key too many, can be described too; for
  a well-formed tree it is \<open>ord\<close> everywhere.
\<close>

fun wf_gen :: "nat \<Rightarrow> heap \<Rightarrow> int \<Rightarrow> (addr \<Rightarrow> int) \<Rightarrow> addr option \<Rightarrow>
    int option \<Rightarrow> int option \<Rightarrow> addr \<Rightarrow> bool" where
  "wf_gen 0 h ord cap par lo hi a = False"
| "wf_gen (Suc n) h ord cap par lo hi a =
     (a < length h \<and> order (h ! a) = ord \<and> parent (h ! a) = par \<and>
      keys_between lo (keys (h ! a)) hi \<and> int (length (keys (h ! a))) \<le> cap a \<and>
      (children (h ! a) = [] \<or>
       kids (\<lambda>l u c. wf_gen n h ord cap (Some a) l u c) lo (keys (h ! a)) (children (h ! a)) hi))"

text \<open>The references and the keys of the tree at \<open>a\<close>, down to depth \<open>n\<close>.\<close>

fun nodes_of :: "nat \<Rightarrow> heap \<Rightarrow> addr \<Rightarrow> addr list" where
  "nodes_of 0 h a = [a]"
| "nodes_of (Suc n) h a = a # concat (map (nodes_of n h) (children (h ! a)))"

fun keys_of :: "nat \<Rightarrow> heap \<Rightarrow> addr \<Rightarrow> int list" where
  "keys_of 0 h a = []"
| "keys_of (Suc n) h a = keys (h ! a) @ concat (map (keys_of n h) (children (h ! a)))"

text \<open>Every node below \<open>a\<close> holds at least \<open>ceil(order/2) - 1\<close> keys.\<close>

fun occupancy :: "nat \<Rightarrow> heap \<Rightarrow> addr \<Rightarrow> bool" where
  "occupancy 0 h a = True"
| "occupancy (Suc n) h a =
     list_all (\<lambda>c. (order (h ! c) + 1) div 2 - 1 \<le> int (length (keys (h ! c))) \<and> occupancy n h c)
       (children (h ! a))"

text \<open>No leaf of the tree at \<open>a\<close> is empty.\<close>

fun leaves_nonempty :: "nat \<Rightarrow> heap \<Rightarrow> addr \<Rightarrow> bool" where
  "leaves_nonempty 0 h a = True"
| "leaves_nonempty (Suc n) h a =
     (if children (h ! a) = [] then keys (h ! a) \<noteq> []
      else list_all (leaves_nonempty n h) (children (h ! a)))"

text \<open>
  A well-formed tree with root \<open>a\<close>: the order is at least 2, the root has no
  parent and no bounds, every node holds at most \<open>order\<close> keys, no node occurs
  twice (each child has one parent), and the nodes below the root hold the
  minimum number of keys.
\<close>

definition well_formed :: "nat \<Rightarrow> heap \<Rightarrow> addr \<Rightarrow> bool" where
  "well_formed n h a =
     (2 \<le> order (h ! a) \<and>
      wf_gen n h (order (h ! a)) (\<lambda>x. order (h ! a)) None None None a \<and>
      distinct (nodes_of n h a) \<and> occupancy n h a)"

subsection \<open>Capacity\<close>

text \<open>
  \<open>capacity_ok n h a\<close>: every node reachable from \<open>a\<close> through the child lists,
  within depth \<open>n\<close>, holds at most \<open>order\<close> keys.
\<close>

fun capacity_ok :: "nat \<Rightarrow> heap \<Rightarrow> addr \<Rightarrow> bool" where
  "capacity_ok 0 h a = False"
| "capacity_ok (Suc n) h a =
     (a < length h \<and> int (length (keys (h ! a))) \<le> order (h ! a) \<and>
      list_all (capacity_ok n h) (children (h ! a)))"

text \<open>
  While \<open>insert\<close> runs, exactly one node may hold \<open>order + 1\<close> keys: the node
  that \<open>_insert_median_split\<close> is about to split.
\<close>

definition cap_at :: "int \<Rightarrow> addr \<Rightarrow> addr \<Rightarrow> int" where
  "cap_at ord s x = (if x = s then ord + 1 else ord)"

text \<open>
  What a split below \<open>a\<close> may change: it only appends nodes to the heap and
  leaves every node outside the subtree of \<open>a\<close> as it was; the subtree still
  has no node twice and consists of old nodes and appended ones.
\<close>

definition split_frame :: "nat \<Rightarrow> heap \<Rightarrow> addr \<Rightarrow> heap \<Rightarrow> bool" where
  "split_frame n h a h1 =
     (length h \<le> length h1 \<and>
      (\<forall>x < length h. x \<notin> set (nodes_of n h a) \<longrightarrow> h1 ! x = h ! x) \<and>
      distinct (nodes_of n h1 a) \<and>
      set (nodes_of n h1 a) \<subseteq> set (nodes_of n h a) \<union> {length h ..< length h1})"

text \<open>
  The descent of \<open>insert\<close> to a leaf \<open>s\<close>: with \<open>k\<close> calls it reaches the
  leaf, puts the value there (heap \<open>h1\<close>), and the rest of the call is the
  split of \<open>s\<close> when \<open>s\<close> has become too large.
\<close>

definition leaf_outcome ::
  "nat \<Rightarrow> heap \<Rightarrow> int \<Rightarrow> addr option \<Rightarrow> int option \<Rightarrow> int option \<Rightarrow> addr \<Rightarrow> int \<Rightarrow>
   nat \<Rightarrow> addr \<Rightarrow> heap \<Rightarrow> bool" where
  "leaf_outcome n h ord par lo hi a v k s h1 =
     (1 \<le> k \<and> k \<le> n \<and> s \<in> set (nodes_of n h a) \<and> nodes_of n h1 a = nodes_of n h a \<and>
      length h1 = length h \<and> (\<forall>x < length h. x \<noteq> s \<longrightarrow> h1 ! x = h ! x) \<and>
      wf_gen n h1 ord (cap_at ord s) par lo hi a \<and>
      (\<forall>f. insert_bt (k + f) h a v =
         (if int (length (keys (h1 ! s))) > ord
          then (case insert_median_split f h1 s of Inl e \<Rightarrow> Inl e | Inr h2 \<Rightarrow> Inr (True, h2))
          else Inr (True, h1))))"

section \<open>Scenarios run on the model\<close>

text \<open>
  C8. Order 4, inserting 0, -2, 2, -4, 4, 6, 8, 10, -6, -8, -10, 1, 3, 5, 9 in
  that order into an empty tree: every insert returns, the root (reference 0,
  which has no parent) holds the keys -6, 0, 3, 6 and has five children,
  holding -10 -8, -4 -2, 1 2, 4 5 and 8 9 10, each with the root as its parent.
\<close>

theorem insert_balancing_scenario:
  "(case insert_all 8 (empty_tree 4) 0 [0, -2, 2, -4, 4, 6, 8, 10, -6, -8, -10, 1, 3, 5, 9] of
      Inl e \<Rightarrow> False
    | Inr h \<Rightarrow>
        keys (h ! 0) = [-6, 0, 3, 6] \<and> parent (h ! 0) = None \<and>
        map (\<lambda>c. keys (h ! c)) (children (h ! 0)) =
          [[-10, -8], [-4, -2], [1, 2], [4, 5], [8, 9, 10]] \<and>
        map (\<lambda>c. parent (h ! c)) (children (h ! 0)) =
          [Some 0, Some 0, Some 0, Some 0, Some 0])"
  by code_simp

text \<open>
  C1. The claim fails on the code. Order 2, inserting 1, 2, ..., 11 in that
  order: the eleventh insert splits an internal node that is not the root, and
  \<open>_insert_recurse\<close> replaces it by two nodes without children, so the leaves
  below it are lost. Afterwards \<open>5 in tree\<close> is \<open>False\<close>, although 5 was
  inserted (the call \<open>insert(5)\<close> returned \<open>True\<close>).
\<close>

theorem inserted_value_lost:
  "(case insert_all 8 (empty_tree 2) 0 [1, 2, 3, 4] of
      Inl e \<Rightarrow> False
    | Inr h4 \<Rightarrow>
        (case insert_bt 8 h4 0 5 of
           Inl e \<Rightarrow> False
         | Inr (b, h5) \<Rightarrow>
             b \<and> contains 8 h5 0 5 = Inr True \<and>
             (case insert_all 8 h5 0 [6, 7, 8, 9, 10, 11] of
                Inl e \<Rightarrow> False
              | Inr h \<Rightarrow> contains 8 h 0 5 = Inr False)))"
  by code_simp

text \<open>
  C2. The claim fails on the code where the absent value is greater than every
  key of the leaf the search ends in: the loop of \<open>remove\<close> runs off its end and
  the method returns \<open>None\<close>, not \<open>False\<close>. Order 2, after inserting 1, 2, 3, the
  value 4 is not in the tree and \<open>remove(4)\<close> returns \<open>None\<close>; the heap is left
  as it was.
\<close>

theorem remove_absent_returns_none:
  "(case insert_all 8 (empty_tree 2) 0 [1, 2, 3] of
      Inl e \<Rightarrow> False
    | Inr h \<Rightarrow> contains 8 h 0 4 = Inr False \<and> remove_bt 8 h 0 4 = Inr (None, h))"
  by code_simp

text \<open>
  C3. The claim fails on the code: \<open>_remove_combine_left\<close> deletes the separator
  from the parent's keys and never deletes the merged node from the parent's
  children. Order 4, after inserting 1, ..., 5 the root holds 3 over the leaves
  1 2 and 4 5. \<open>remove(5)\<close> leaves one key in the right leaf, which is merged
  into the left one: the root then has no key and still two children, and the
  merged node still holds its key 4.
\<close>

theorem merged_node_stays_in_parent:
  "(case insert_all 8 (empty_tree 4) 0 [1, 2, 3, 4, 5] of
      Inl e \<Rightarrow> False
    | Inr h \<Rightarrow>
        h = [\<lparr>order = 4, keys = [3], children = [1, 2], parent = None\<rparr>,
             \<lparr>order = 4, keys = [1, 2], children = [], parent = Some 0\<rparr>,
             \<lparr>order = 4, keys = [4, 5], children = [], parent = Some 0\<rparr>] \<and>
        remove_bt 8 h 0 5 =
          Inr (Some True,
               [\<lparr>order = 4, keys = [], children = [1, 2], parent = None\<rparr>,
                \<lparr>order = 4, keys = [1, 2, 3, 4], children = [], parent = Some 0\<rparr>,
                \<lparr>order = 4, keys = [4], children = [], parent = Some 0\<rparr>]))"
  by code_simp

text \<open>
  C4. The claim fails on the code, by the same defect. Order 2, inserting 1, 2, 3
  and removing 3, all starting from the empty tree: the root ends with two
  children and no key, so its number of children is not its number of keys
  plus one.
\<close>

theorem child_count_broken_after_remove:
  "(case insert_all 8 (empty_tree 2) 0 [1, 2, 3] of
      Inl e \<Rightarrow> False
    | Inr h \<Rightarrow>
        (case remove_bt 8 h 0 3 of
           Inl e \<Rightarrow> False
         | Inr (r, h') \<Rightarrow>
             r = Some True \<and> children (h' ! 0) = [1, 2] \<and> keys (h' ! 0) = [] \<and>
             length (children (h' ! 0)) \<noteq> length (keys (h' ! 0)) + 1))"
  by code_simp

text \<open>
  C5. The claim fails on the code, by the same defect. Order 3, so that a node
  other than the root must hold at least \<open>ceil(3/2) - 1 = 1\<close> key. After
  inserting 1, 2, 3, 4 the root holds 3 over the leaves 1 2 and 4, a well-formed
  tree. \<open>remove(4)\<close> empties the right leaf and merges it into the left one, and
  the emptied leaf (reference 2) stays a child of the root, holding no key.
\<close>

theorem underflowing_node_after_remove:
  "(case insert_all 8 (empty_tree 3) 0 [1, 2, 3, 4] of
      Inl e \<Rightarrow> False
    | Inr h \<Rightarrow>
        h = [\<lparr>order = 3, keys = [3], children = [1, 2], parent = None\<rparr>,
             \<lparr>order = 3, keys = [1, 2], children = [], parent = Some 0\<rparr>,
             \<lparr>order = 3, keys = [4], children = [], parent = Some 0\<rparr>] \<and>
        (case remove_bt 8 h 0 4 of
           Inl e \<Rightarrow> False
         | Inr (r, h') \<Rightarrow>
             r = Some True \<and> children (h' ! 0) = [1, 2] \<and> parent (h' ! 2) = Some 0 \<and>
             int (length (keys (h' ! 2))) < (order (h' ! 2) + 1) div 2 - 1))"
  by code_simp

section \<open>The branch taken by underflow rebalancing\<close>

text \<open>
  C10, as stated, fails on the code: a leaf can have a sibling that is not a
  leaf. Order 2, inserting 1, ..., 11, 0, -1 in that order: the root then has
  the children 7, 13 and 14, where 13 and 14 are the childless nodes made by
  \<open>_insert_recurse\<close> and 7 is an internal node with three children.
  \<open>remove(6)\<close> empties the leaf 13 and calls \<open>_remove_rebalance\<close> on it; its
  left sibling has three children, more than the order, and the branch taken is
  the rotation to the right.
\<close>

theorem leaf_rotation_counterexample:
  "(case insert_all 8 (empty_tree 2) 0 [1, 2, 3, 4, 5, 6, 7, 8, 9, 10, 11, 0, -1] of
      Inl e \<Rightarrow> False
    | Inr h \<Rightarrow>
        (let h1 = h[13 := (h ! 13)\<lparr>keys := []\<rparr>] in
           remove_bt 8 h 0 6 =
             and_then (remove_rebalance 6 h1 13) (\<lambda>(r, h2). Inr (Some True, h2)) \<and>
           children (h1 ! 13) = [] \<and> parent (h1 ! 13) = Some 0 \<and>
           rebalance_branch h1 13 = Inr RotateRight))"
  by code_simp

text \<open>
  C10, amended. When \<open>_remove_rebalance\<close> runs on a node that has a parent,
  with a non-negative order, and the adjacent siblings that exist have no
  children (as the siblings of a leaf have when all leaves are at one depth),
  neither rotation is taken: the node is merged with its left sibling if there
  is one, and the right sibling is merged into it otherwise.
\<close>

theorem leaf_siblings_never_rotate:
  assumes "load h a = Inr nd" and "parent nd = Some p" and "0 \<le> order nd"
    and "left_sibling h a = Inr ls" and "right_sibling h a = Inr rs"
    and "childless h ls" and "childless h rs"
  shows "rebalance_branch h a = Inr (if ls \<noteq> None then CombineWithLeft else CombineRightSibling)"
  using assms
  by (auto simp: rebalance_branch_def exceeds_order_def and_then_def childless_def
           split: option.splits)

theorem leaf_siblings_never_rotate_witness:
  "rebalance_branch
     [\<lparr>order = 2, keys = [2], children = [1, 2], parent = None\<rparr>,
      \<lparr>order = 2, keys = [1], children = [], parent = Some 0\<rparr>,
      \<lparr>order = 2, keys = [], children = [], parent = Some 0\<rparr>] 2 = Inr CombineWithLeft"
proof -
  let ?h = "[\<lparr>order = 2, keys = [2], children = [1, 2], parent = None\<rparr>,
      \<lparr>order = 2, keys = [1], children = [], parent = Some 0\<rparr>,
      \<lparr>order = 2, keys = [], children = [], parent = Some (0::nat)\<rparr>]"
  have 1: "load ?h 2 = Inr \<lparr>order = 2, keys = [], children = [], parent = Some 0\<rparr>"
    by (simp add: load_def)
  have 2: "left_sibling ?h 2 = Inr (Some 1)" by code_simp
  have 3: "right_sibling ?h 2 = Inr None" by code_simp
  have 4: "childless ?h (Some 1)" by code_simp
  have 5: "childless ?h None" by code_simp
  show ?thesis
    using leaf_siblings_never_rotate [OF 1 _ _ 2 3 4 5] by simp
qed

section \<open>Search paths in well-formed trees\<close>

text \<open>\<open>kids\<close> by position: child \<open>i\<close> has the bounds \<open>lower i\<close> and \<open>upper i\<close>.\<close>

lemma lower_Cons_Suc: "lower lo (k # ks) (Suc i) = lower (Some k) ks i"
  by (cases i) (simp_all add: lower_def)

lemma upper_Cons_Suc: "upper (k # ks) hi (Suc i) = upper ks hi i"
  by (simp add: upper_def)

lemma kids_nth:
  "kids P lo ks cs hi \<longleftrightarrow>
     length cs = Suc (length ks) \<and> (\<forall>i < length cs. P (lower lo ks i) (upper ks hi i) (cs ! i))"
proof (induction P lo ks cs hi rule: kids.induct)
  case (1 P lo c hi)
  then show ?case by (simp add: lower_def upper_def)
next
  case (2 P lo k ks c cs hi)
  have "lower lo (k # ks) 0 = lo" "upper (k # ks) hi 0 = Some k"
    by (simp_all add: lower_def upper_def)
  then show ?case
    by (auto simp add: 2 All_less_Suc2 lower_Cons_Suc upper_Cons_Suc)
qed simp_all

lemma above_lower:
  assumes "keys_between lo ks hi" "i \<le> length ks" "above (lower lo ks i) k"
  shows "above lo k"
proof (cases "i = 0")
  case True
  then show ?thesis using assms by (simp add: lower_def)
next
  case False
  then have "ks ! (i - 1) \<in> set ks" using assms(2) by simp
  then have "above lo (ks ! (i - 1))"
    using assms(1) by (simp add: keys_between_def list_all_iff)
  moreover have "ks ! (i - 1) < k" using assms(3) False by (simp add: lower_def above_def)
  ultimately show ?thesis by (auto simp: above_def split: option.splits)
qed

lemma below_upper:
  assumes "keys_between lo ks hi" "below (upper ks hi i) k"
  shows "below hi k"
proof (cases "i < length ks")
  case True
  then have "below hi (ks ! i)"
    using assms(1) by (simp add: keys_between_def list_all_iff)
  moreover have "k < ks ! i" using assms(2) True by (simp add: upper_def below_def)
  ultimately show ?thesis by (auto simp: below_def split: option.splits)
next
  case False
  then show ?thesis using assms by (simp add: upper_def)
qed

lemma wf_gen_keys_bounded:
  "wf_gen n h ord cap par lo hi a \<Longrightarrow> k \<in> set (keys_of n h a) \<Longrightarrow> above lo k \<and> below hi k"
proof (induction n arbitrary: par lo hi a)
  case 0
  then show ?case by simp
next
  case (Suc n)
  let ?ks = "keys (h ! a)" and ?cs = "children (h ! a)"
  from Suc.prems(1) have kb: "keys_between lo ?ks hi" by simp
  from Suc.prems(2) consider "k \<in> set ?ks" | c where "c \<in> set ?cs" "k \<in> set (keys_of n h c)"
    by auto
  then show ?case
  proof cases
    case 1
    then show ?thesis using kb by (simp add: keys_between_def list_all_iff)
  next
    case 2
    then have "?cs \<noteq> []" by auto
    with Suc.prems(1) have
      kd: "kids (\<lambda>l u c. wf_gen n h ord cap (Some a) l u c) lo ?ks ?cs hi" by simp
    from 2 obtain i where i: "i < length ?cs" "?cs ! i = c" by (auto simp: in_set_conv_nth)
    from kd i have len: "length ?cs = Suc (length ?ks)"
      and wf: "wf_gen n h ord cap (Some a) (lower lo ?ks i) (upper ?ks hi i) c"
      by (auto simp: kids_nth)
    from Suc.IH [OF wf 2(2)] have "above (lower lo ?ks i) k" "below (upper ?ks hi i) k" by auto
    moreover have "i \<le> length ?ks" using i(1) len by simp
    ultimately show ?thesis using above_lower [OF kb] below_upper [OF kb] by blast
  qed
qed

lemma scan_from_found:
  "sorted_wrt (<) ks \<Longrightarrow> v \<in> set ks \<Longrightarrow> \<exists>i. scan_from ks v j = Found i"
  by (induction ks arbitrary: j) auto

lemma scan_from_position:
  "sorted_wrt (<) ks \<Longrightarrow> i \<le> length ks \<Longrightarrow> (\<forall>j < i. ks ! j < v) \<Longrightarrow>
   (i < length ks \<longrightarrow> v < ks ! i) \<Longrightarrow>
   scan_from ks v b = (if i < length ks then Greater (b + i) else Exhausted)"
proof (induction ks arbitrary: i b)
  case Nil
  then show ?case by simp
next
  case (Cons k ks)
  show ?case
  proof (cases i)
    case 0
    then show ?thesis using Cons.prems by auto
  next
    case (Suc i')
    have "k < v" using Cons.prems(3) Suc by auto
    moreover have "scan_from ks v (Suc b) = (if i' < length ks then Greater (Suc b + i') else Exhausted)"
      using Cons.prems Suc by (intro Cons.IH) auto
    ultimately show ?thesis using Suc by simp
  qed
qed

lemma scan_keys_child:
  assumes "keys_between lo ks hi" "i \<le> length ks"
    and "above (lower lo ks i) v" "below (upper ks hi i) v"
  shows "scan_keys ks v = (if i < length ks then Greater i else Exhausted)"
proof -
  have s: "sorted_wrt (<) ks" using assms(1) by (simp add: keys_between_def)
  have a: "\<forall>j < i. ks ! j < v"
  proof (intro allI impI)
    fix j assume j: "j < i"
    then have "ks ! (i - 1) < v" using assms(3) by (simp add: lower_def above_def)
    moreover have "ks ! j \<le> ks ! (i - 1)"
    proof (cases "j = i - 1")
      case False
      then have "j < i - 1" using j by simp
      then have "ks ! j < ks ! (i - 1)"
        using s assms(2) j by (simp add: sorted_wrt_iff_nth_less)
      then show ?thesis by simp
    qed simp
    ultimately show "ks ! j < v" by simp
  qed
  have b: "i < length ks \<longrightarrow> v < ks ! i" using assms(4) by (auto simp: upper_def below_def)
  show ?thesis using scan_from_position [OF s assms(2) a b, of 0] by (simp add: scan_keys_def)
qed

lemma load_in: "a < length h \<Longrightarrow> load h a = Inr (h ! a)"
  by (simp add: load_def)

lemma insert_present_aux:
  "wf_gen n h ord cap par lo hi a \<Longrightarrow> v \<in> set (keys_of n h a) \<Longrightarrow>
   insert_bt n h a v = Inr (False, h)"
proof (induction n arbitrary: par lo hi a)
  case 0
  then show ?case by simp
next
  case (Suc n)
  let ?ks = "keys (h ! a)" and ?cs = "children (h ! a)"
  from Suc.prems(1) have kb: "keys_between lo ?ks hi" and a: "a < length h" by simp_all
  from Suc.prems(2) consider "v \<in> set ?ks" | c where "c \<in> set ?cs" "v \<in> set (keys_of n h c)"
    by auto
  then show ?case
  proof cases
    case 1
    then obtain i where "scan_keys ?ks v = Found i"
      using kb scan_from_found [of ?ks v 0] by (auto simp: keys_between_def scan_keys_def)
    then show ?thesis using a by (simp add: load_in)
  next
    case 2
    then have ne: "?cs \<noteq> []" by auto
    with Suc.prems(1) have
      kd: "kids (\<lambda>l u c. wf_gen n h ord cap (Some a) l u c) lo ?ks ?cs hi" by simp
    from 2 obtain i where i: "i < length ?cs" "?cs ! i = c" by (auto simp: in_set_conv_nth)
    from kd i have len: "length ?cs = Suc (length ?ks)"
      and wf: "wf_gen n h ord cap (Some a) (lower lo ?ks i) (upper ?ks hi i) c"
      by (auto simp: kids_nth)
    from wf_gen_keys_bounded [OF wf 2(2)]
    have bd: "above (lower lo ?ks i) v" "below (upper ?ks hi i) v" by auto
    have il: "i \<le> length ?ks" using i(1) len by simp
    have sc: "scan_keys ?ks v = (if i < length ?ks then Greater i else Exhausted)"
      by (rule scan_keys_child [OF kb il bd])
    have rec: "insert_bt n h c v = Inr (False, h)" by (rule Suc.IH [OF wf 2(2)])
    show ?thesis
    proof (cases "i < length ?ks")
      case True
      then show ?thesis using a ne sc rec i by (simp add: load_in)
    next
      case False
      then have "i = length ?ks" using il by simp
      then have "last ?cs = c" using i len ne by (simp add: last_conv_nth)
      then show ?thesis using a ne sc rec False by (simp add: load_in)
    qed
  qed
qed



text \<open>
  Claim C6.  For every tree and every value already present anywhere in it,
  \<open>insert(value)\<close> returns \<open>False\<close> and leaves the tree's key set unchanged.
  The trees of the specification are the well-formed ones (order at least 2
  and the structural invariants).  On such a tree of depth at most \<open>n\<close>, for
  a value \<open>v\<close> stored in any node, the call returns \<open>False\<close> and the heap
  it returns is the heap it was given, so no key set has changed.
\<close>

theorem insert_present:
  assumes "well_formed n h a" and "v \<in> set (keys_of n h a)"
  shows "insert_bt n h a v = Inr (False, h)"
  using assms insert_present_aux by (auto simp: well_formed_def)

theorem insert_present_witness:
  "well_formed 2
     [\<lparr>order = 4, keys = [3], children = [1, 2], parent = None\<rparr>,
      \<lparr>order = 4, keys = [1, 2], children = [], parent = Some 0\<rparr>,
      \<lparr>order = 4, keys = [4, 5], children = [], parent = Some 0\<rparr>] 0 \<and>
   insert_bt 2
     [\<lparr>order = 4, keys = [3], children = [1, 2], parent = None\<rparr>,
      \<lparr>order = 4, keys = [1, 2], children = [], parent = Some 0\<rparr>,
      \<lparr>order = 4, keys = [4, 5], children = [], parent = Some 0\<rparr>] 0 4 =
   Inr (False,
     [\<lparr>order = 4, keys = [3], children = [1, 2], parent = None\<rparr>,
      \<lparr>order = 4, keys = [1, 2], children = [], parent = Some 0\<rparr>,
      \<lparr>order = 4, keys = [4, 5], children = [], parent = Some 0\<rparr>])"
proof -
  let ?h = "[\<lparr>order = 4, keys = [3], children = [1, 2], parent = None\<rparr>,
      \<lparr>order = 4, keys = [1, 2], children = [], parent = Some 0\<rparr>,
      \<lparr>order = 4, keys = [4, 5], children = [], parent = Some (0::nat)\<rparr>]"
  have wf: "well_formed 2 ?h 0" by code_simp
  have mem: "4 \<in> set (keys_of 2 ?h 0)" by code_simp
  show ?thesis using wf insert_present [OF wf mem] by simp
qed

section \<open>Maximum and minimum\<close>

lemma py_get_last: "ks \<noteq> [] \<Longrightarrow> py_get ks (- 1) = Inr (last ks)"
  by (simp add: py_get_def py_pos_def Let_def last_conv_nth nat_diff_distrib')

lemma py_get_first: "ks \<noteq> [] \<Longrightarrow> py_get ks 0 = Inr (hd ks)"
  by (simp add: py_get_def py_pos_def Let_def hd_conv_nth)

lemma strict_le_last: "sorted_wrt (<) ks \<Longrightarrow> k \<in> set ks \<Longrightarrow> k \<le> last (ks :: int list)"
proof (induction ks)
  case Nil
  then show ?case by simp
next
  case (Cons x ks)
  show ?case
  proof (cases "ks = []")
    case True
    then show ?thesis using Cons.prems by simp
  next
    case False
    then have "last ks \<in> set ks" by simp
    then have "x < last ks" using Cons.prems(1) by simp
    moreover have "k \<in> set ks \<Longrightarrow> k \<le> last ks" using Cons by simp
    ultimately show ?thesis using Cons.prems(2) False by auto
  qed
qed

lemma strict_hd_le: "sorted_wrt (<) ks \<Longrightarrow> k \<in> set ks \<Longrightarrow> hd ks \<le> (k :: int)"
  by (induction ks) auto

lemma maximum_aux:
  "wf_gen n h ord cap par lo hi a \<Longrightarrow> leaves_nonempty n h a \<Longrightarrow>
   \<exists>m. maximum n h a = Inr m \<and> m \<in> set (keys_of n h a) \<and> (\<forall>k \<in> set (keys_of n h a). k \<le> m)"
proof (induction n arbitrary: par lo hi a)
  case 0
  then show ?case by simp
next
  case (Suc n)
  let ?ks = "keys (h ! a)" and ?cs = "children (h ! a)"
  from Suc.prems(1) have kb: "keys_between lo ?ks hi" and a: "a < length h" by simp_all
  then have st: "sorted_wrt (<) ?ks" by (simp add: keys_between_def)
  show ?case
  proof (cases "?cs = []")
    case True
    then have ne: "?ks \<noteq> []" using Suc.prems(2) by simp
    have "maximum (Suc n) h a = Inr (last ?ks)"
      using a True ne by (simp add: load_in and_then_def py_get_last)
    moreover have "keys_of (Suc n) h a = ?ks" using True by simp
    ultimately show ?thesis using ne strict_le_last [OF st] by auto
  next
    case False
    with Suc.prems(1) have
      kd: "kids (\<lambda>l u c. wf_gen n h ord cap (Some a) l u c) lo ?ks ?cs hi" by simp
    then have len: "length ?cs = Suc (length ?ks)"
      and wfi: "\<And>i. i < length ?cs \<Longrightarrow>
         wf_gen n h ord cap (Some a) (lower lo ?ks i) (upper ?ks hi i) (?cs ! i)"
      by (auto simp: kids_nth)
    let ?c = "last ?cs"
    have lc: "?c = ?cs ! length ?ks" using False len by (simp add: last_conv_nth)
    have wfc: "wf_gen n h ord cap (Some a) (lower lo ?ks (length ?ks)) (upper ?ks hi (length ?ks)) ?c"
      using wfi [of "length ?ks"] len lc by simp
    have lnc: "leaves_nonempty n h ?c"
      using Suc.prems(2) False by (simp add: list_all_iff)
    from Suc.IH [OF wfc lnc] obtain m where m: "maximum n h ?c = Inr m"
      "m \<in> set (keys_of n h ?c)" "\<forall>k \<in> set (keys_of n h ?c). k \<le> m" by auto
    have run: "maximum (Suc n) h a = Inr m" using a False m(1) by (simp add: load_in and_then_def)
    have mem: "m \<in> set (keys_of (Suc n) h a)" using m(2) False by auto
    have above_keys: "k < m" if "k \<in> set ?ks" for k
    proof -
      have "?ks \<noteq> []" using that by auto
      then have "lower lo ?ks (length ?ks) = Some (last ?ks)"
        by (simp add: lower_def last_conv_nth)
      then have "last ?ks < m"
        using wf_gen_keys_bounded [OF wfc m(2)] by (simp add: above_def)
      then show ?thesis using strict_le_last [OF st that] by simp
    qed
    have "k \<le> m" if "k \<in> set (keys_of (Suc n) h a)" for k
    proof -
      from that consider "k \<in> set ?ks" | c where "c \<in> set ?cs" "k \<in> set (keys_of n h c)"
        by auto
      then show ?thesis
      proof cases
        case 1
        then show ?thesis using above_keys by force
      next
        case c: 2
        then obtain i where 2: "i < length ?cs" "k \<in> set (keys_of n h (?cs ! i))"
          by (auto simp: in_set_conv_nth)
        show ?thesis
        proof (cases "i = length ?ks")
          case True
          then show ?thesis using 2 m(3) lc by simp
        next
          case False
          then have il: "i < length ?ks" using 2(1) len by simp
          then have "k < ?ks ! i"
            using wf_gen_keys_bounded [OF wfi [OF 2(1)] 2(2)] by (simp add: upper_def below_def)
          then show ?thesis using above_keys [of "?ks ! i"] il by simp
        qed
      qed
    qed
    then show ?thesis using run mem by blast
  qed
qed

lemma minimum_aux:
  "wf_gen n h ord cap par lo hi a \<Longrightarrow> leaves_nonempty n h a \<Longrightarrow>
   \<exists>m. minimum n h a = Inr m \<and> m \<in> set (keys_of n h a) \<and> (\<forall>k \<in> set (keys_of n h a). m \<le> k)"
proof (induction n arbitrary: par lo hi a)
  case 0
  then show ?case by simp
next
  case (Suc n)
  let ?ks = "keys (h ! a)" and ?cs = "children (h ! a)"
  from Suc.prems(1) have kb: "keys_between lo ?ks hi" and a: "a < length h" by simp_all
  then have st: "sorted_wrt (<) ?ks" by (simp add: keys_between_def)
  show ?case
  proof (cases "?cs = []")
    case True
    then have ne: "?ks \<noteq> []" using Suc.prems(2) by simp
    have "minimum (Suc n) h a = Inr (hd ?ks)"
      using a True ne by (simp add: load_in and_then_def py_get_first)
    moreover have "keys_of (Suc n) h a = ?ks" using True by simp
    ultimately show ?thesis using ne strict_hd_le [OF st] by auto
  next
    case False
    with Suc.prems(1) have
      kd: "kids (\<lambda>l u c. wf_gen n h ord cap (Some a) l u c) lo ?ks ?cs hi" by simp
    then have len: "length ?cs = Suc (length ?ks)"
      and wfi: "\<And>i. i < length ?cs \<Longrightarrow>
         wf_gen n h ord cap (Some a) (lower lo ?ks i) (upper ?ks hi i) (?cs ! i)"
      by (auto simp: kids_nth)
    let ?c = "hd ?cs"
    have lc: "?c = ?cs ! 0" using False by (simp add: hd_conv_nth)
    have wfc: "wf_gen n h ord cap (Some a) (lower lo ?ks 0) (upper ?ks hi 0) ?c"
      using wfi [of 0] len lc by simp
    have lnc: "leaves_nonempty n h ?c"
      using Suc.prems(2) False by (simp add: list_all_iff)
    from Suc.IH [OF wfc lnc] obtain m where m: "minimum n h ?c = Inr m"
      "m \<in> set (keys_of n h ?c)" "\<forall>k \<in> set (keys_of n h ?c). m \<le> k" by auto
    have run: "minimum (Suc n) h a = Inr m" using a False m(1) by (simp add: load_in and_then_def)
    have mem: "m \<in> set (keys_of (Suc n) h a)" using m(2) False by auto
    have below_keys: "m < k" if "k \<in> set ?ks" for k
    proof -
      have "?ks \<noteq> []" using that by auto
      then have "upper ?ks hi 0 = Some (hd ?ks)"
        by (simp add: upper_def hd_conv_nth)
      then have "m < hd ?ks"
        using wf_gen_keys_bounded [OF wfc m(2)] by (simp add: below_def)
      then show ?thesis using strict_hd_le [OF st that] by simp
    qed
    have "m \<le> k" if "k \<in> set (keys_of (Suc n) h a)" for k
    proof -
      from that consider "k \<in> set ?ks" | c where "c \<in> set ?cs" "k \<in> set (keys_of n h c)"
        by auto
      then show ?thesis
      proof cases
        case 1
        then show ?thesis using below_keys by force
      next
        case c: 2
        then obtain i where 2: "i < length ?cs" "k \<in> set (keys_of n h (?cs ! i))"
          by (auto simp: in_set_conv_nth)
        show ?thesis
        proof (cases "i = 0")
          case True
          then show ?thesis using 2 m(3) lc by simp
        next
          case False
          then have il: "i - 1 < length ?ks" using 2(1) len by simp
          have "?ks ! (i - 1) < k"
            using wf_gen_keys_bounded [OF wfi [OF 2(1)] 2(2)] False by (simp add: lower_def above_def)
          then show ?thesis using below_keys [of "?ks ! (i - 1)"] il by simp
        qed
      qed
    qed
    then show ?thesis using run mem by blast
  qed
qed


text \<open>
  C9, as stated, fails on the code for order 2, where a node below the root may
  hold \<open>ceil(2/2) - 1 = 0\<close> keys: the tree with the root key 5 over two empty
  leaves is well formed and stores a key, and both \<open>maximum\<close> and \<open>minimum\<close>
  raise IndexError at the empty leaf.
\<close>

theorem maximum_empty_leaf_counterexample:
  "well_formed 2
     [\<lparr>order = 2, keys = [5], children = [1, 2], parent = None\<rparr>,
      \<lparr>order = 2, keys = [], children = [], parent = Some 0\<rparr>,
      \<lparr>order = 2, keys = [], children = [], parent = Some 0\<rparr>] 0 \<and>
   keys_of 2
     [\<lparr>order = 2, keys = [5], children = [1, 2], parent = None\<rparr>,
      \<lparr>order = 2, keys = [], children = [], parent = Some 0\<rparr>,
      \<lparr>order = 2, keys = [], children = [], parent = Some 0\<rparr>] 0 = [5] \<and>
   maximum 8
     [\<lparr>order = 2, keys = [5], children = [1, 2], parent = None\<rparr>,
      \<lparr>order = 2, keys = [], children = [], parent = Some 0\<rparr>,
      \<lparr>order = 2, keys = [], children = [], parent = Some 0\<rparr>] 0 = Inl IndexError \<and>
   minimum 8
     [\<lparr>order = 2, keys = [5], children = [1, 2], parent = None\<rparr>,
      \<lparr>order = 2, keys = [], children = [], parent = Some 0\<rparr>,
      \<lparr>order = 2, keys = [], children = [], parent = Some 0\<rparr>] 0 = Inl IndexError"
  by code_simp

text \<open>
  C9, amended. In a well-formed tree none of whose leaves is empty, \<open>maximum\<close>
  returns the largest stored key and \<open>minimum\<close> the smallest. Both only read
  the heap: in the model they return a value and no heap.
\<close>

theorem maximum_minimum_correct:
  assumes "well_formed n h a" and "leaves_nonempty n h a"
  shows "maximum n h a = Inr (Max (set (keys_of n h a))) \<and>
         minimum n h a = Inr (Min (set (keys_of n h a)))"
proof -
  from assms(1) have wf: "wf_gen n h (order (h ! a)) (\<lambda>x. order (h ! a)) None None None a"
    by (simp add: well_formed_def)
  from maximum_aux [OF wf assms(2)] obtain m where m: "maximum n h a = Inr m"
    "m \<in> set (keys_of n h a)" "\<forall>k \<in> set (keys_of n h a). k \<le> m" by auto
  from minimum_aux [OF wf assms(2)] obtain l where l: "minimum n h a = Inr l"
    "l \<in> set (keys_of n h a)" "\<forall>k \<in> set (keys_of n h a). l \<le> k" by auto
  have "Max (set (keys_of n h a)) = m" using m by (intro Max_eqI) auto
  moreover have "Min (set (keys_of n h a)) = l" using l by (intro Min_eqI) auto
  ultimately show ?thesis using m(1) l(1) by simp
qed

theorem maximum_minimum_correct_witness:
  "maximum 2
     [\<lparr>order = 4, keys = [3], children = [1, 2], parent = None\<rparr>,
      \<lparr>order = 4, keys = [1, 2], children = [], parent = Some 0\<rparr>,
      \<lparr>order = 4, keys = [4, 5], children = [], parent = Some 0\<rparr>] 0 = Inr 5 \<and>
   minimum 2
     [\<lparr>order = 4, keys = [3], children = [1, 2], parent = None\<rparr>,
      \<lparr>order = 4, keys = [1, 2], children = [], parent = Some 0\<rparr>,
      \<lparr>order = 4, keys = [4, 5], children = [], parent = Some 0\<rparr>] 0 = Inr 1"
proof -
  let ?h = "[\<lparr>order = 4, keys = [3], children = [1, 2], parent = None\<rparr>,
      \<lparr>order = 4, keys = [1, 2], children = [], parent = Some 0\<rparr>,
      \<lparr>order = 4, keys = [4, 5], children = [], parent = Some (0::nat)\<rparr>]"
  have wf: "well_formed 2 ?h 0" by code_simp
  have ln: "leaves_nonempty 2 ?h 0" by code_simp
  have mx: "Max (set (keys_of 2 ?h 0)) = 5" by code_simp
  have mn: "Min (set (keys_of 2 ?h 0)) = 1" by code_simp
  from maximum_minimum_correct [OF wf ln] show ?thesis unfolding mx mn .
qed

section \<open>Insertion keeps every node within capacity\<close>

subsection \<open>Child lists and the frame of a subtree\<close>

lemma kids_mono:
  "kids P lo ks cs hi \<Longrightarrow> (\<And>l u c. c \<in> set cs \<Longrightarrow> P l u c \<Longrightarrow> Q l u c) \<Longrightarrow> kids Q lo ks cs hi"
  by (auto simp: kids_nth)

lemma kids_elem: "kids P lo ks cs hi \<Longrightarrow> c \<in> set cs \<Longrightarrow> \<exists>l u. P l u c"
  unfolding kids_nth in_set_conv_nth by blast

lemma kids_nonempty: "kids P lo ks cs hi \<Longrightarrow> cs \<noteq> []"
  by (auto simp: kids_nth)

lemma kids_length: "kids P lo ks cs hi \<Longrightarrow> length cs = Suc (length ks)"
  by (auto simp: kids_nth)

lemma kids_replace:
  "kids P lo ks cs hi \<Longrightarrow> j < length cs \<Longrightarrow>
   (\<And>l u c. c \<in> set (take j cs) \<union> set (drop (Suc j) cs) \<Longrightarrow> P l u c \<Longrightarrow> Q l u c) \<Longrightarrow>
   Q (lower lo ks j) (Some m) L \<Longrightarrow> Q (Some m) (upper ks hi j) R \<Longrightarrow>
   kids Q lo (take j ks @ m # drop j ks) (take j cs @ L # R # drop (Suc j) cs) hi"
proof (induction P lo ks cs hi arbitrary: j rule: kids.induct)
  case (1 P lo c hi)
  then show ?case by (simp add: lower_def upper_def)
next
  case (2 P lo k ks c cs hi)
  show ?case
  proof (cases j)
    case 0
    have "kids Q (Some k) ks cs hi"
      using "2.prems"(1,3) 0 by (auto intro: kids_mono [where P = P])
    then show ?thesis using "2.prems"(4,5) 0 by (simp add: lower_def upper_def)
  next
    case (Suc j')
    have c: "Q lo (Some k) c" using "2.prems"(1,3) Suc by auto
    have "kids Q (Some k) (take j' ks @ m # drop j' ks) (take j' cs @ L # R # drop (Suc j') cs) hi"
    proof (rule "2.IH")
      show "kids P (Some k) ks cs hi" using "2.prems"(1) by simp
      show "j' < length cs" using "2.prems"(2) Suc by simp
      show "Q l u x" if "x \<in> set (take j' cs) \<union> set (drop (Suc j') cs)" "P l u x" for l u x
        using that "2.prems"(3) [of x l u] Suc by auto
      show "Q (lower (Some k) ks j') (Some m) L"
        using "2.prems"(4) Suc by (simp add: lower_Cons_Suc)
      show "Q (Some m) (upper ks hi j') R"
        using "2.prems"(5) Suc by (simp add: upper_Cons_Suc)
    qed
    then show ?thesis using c Suc by simp
  qed
qed simp_all

lemma kids_take:
  "kids P lo ks cs hi \<Longrightarrow> i < length ks \<Longrightarrow>
   kids P lo (take i ks) (take (Suc i) cs) (Some (ks ! i))"
proof (induction P lo ks cs hi arbitrary: i rule: kids.induct)
  case (2 P lo k ks c cs hi)
  then show ?case by (cases i) auto
qed simp_all

lemma kids_drop:
  "kids P lo ks cs hi \<Longrightarrow> i < length ks \<Longrightarrow>
   kids P (Some (ks ! i)) (drop (Suc i) ks) (drop (Suc i) cs) hi"
proof (induction P lo ks cs hi arbitrary: i rule: kids.induct)
  case (2 P lo k ks c cs hi)
  then show ?case by (cases i) auto
qed simp_all

lemma wf_gen_pos: "wf_gen n h ord cap par lo hi a \<Longrightarrow> 0 < n"
  by (cases n) auto

lemma wf_gen_nodes_lt:
  "wf_gen n h ord cap par lo hi a \<Longrightarrow> x \<in> set (nodes_of n h a) \<Longrightarrow> x < length h"
proof (induction n arbitrary: par lo hi a)
  case 0
  then show ?case by simp
next
  case (Suc n)
  show ?case
  proof (cases "x = a")
    case True
    then show ?thesis using Suc.prems(1) by simp
  next
    case False
    then obtain c where c: "c \<in> set (children (h ! a))" "x \<in> set (nodes_of n h c)"
      using Suc.prems(2) by auto
    then have "kids (\<lambda>l u c. wf_gen n h ord cap (Some a) l u c) lo (keys (h ! a)) (children (h ! a)) hi"
      using Suc.prems(1) by auto
    then obtain l u where "wf_gen n h ord cap (Some a) l u c"
      using kids_elem c(1) by blast
    then show ?thesis using Suc.IH c(2) by blast
  qed
qed

lemma wf_gen_frame:
  "wf_gen n h ord cap par lo hi a \<Longrightarrow>
   (\<And>x. x \<in> set (nodes_of n h a) \<Longrightarrow> x < length h' \<and> h' ! x = h ! x \<and>
      (int (length (keys (h ! x))) \<le> cap x \<longrightarrow> int (length (keys (h ! x))) \<le> cap' x)) \<Longrightarrow>
   wf_gen n h' ord cap' par lo hi a \<and> nodes_of n h' a = nodes_of n h a"
proof (induction n arbitrary: par lo hi a)
  case 0
  then show ?case by simp
next
  case (Suc n)
  let ?ks = "keys (h ! a)" and ?cs = "children (h ! a)"
  have a: "a < length h' \<and> h' ! a = h ! a \<and> int (length (keys (h ! a))) \<le> cap' a"
    using Suc.prems by simp
  have sub: "wf_gen n h' ord cap' (Some a) l u c \<and> nodes_of n h' c = nodes_of n h c"
    if "c \<in> set ?cs" "wf_gen n h ord cap (Some a) l u c" for l u c
  proof (rule Suc.IH [OF that(2)])
    fix x assume "x \<in> set (nodes_of n h c)"
    then have "x \<in> set (nodes_of (Suc n) h a)" using that(1) by auto
    then show "x < length h' \<and> h' ! x = h ! x \<and>
      (int (length (keys (h ! x))) \<le> cap x \<longrightarrow> int (length (keys (h ! x))) \<le> cap' x)"
      by (rule Suc.prems(2))
  qed
  have nodes: "nodes_of (Suc n) h' a = nodes_of (Suc n) h a"
  proof (cases "?cs = []")
    case True
    then show ?thesis using a by simp
  next
    case False
    then have kd: "kids (\<lambda>l u c. wf_gen n h ord cap (Some a) l u c) lo ?ks ?cs hi"
      using Suc.prems(1) by simp
    have "nodes_of n h' c = nodes_of n h c" if mem: "c \<in> set ?cs" for c
    proof -
      obtain l u where "wf_gen n h ord cap (Some a) l u c"
        using kids_elem [OF kd mem] by blast
      then show ?thesis using sub mem by blast
    qed
    then have "map (nodes_of n h') ?cs = map (nodes_of n h) ?cs" by simp
    then have "concat (map (nodes_of n h') ?cs) = concat (map (nodes_of n h) ?cs)"
      by (rule arg_cong)
    then show ?thesis using a by simp
  qed
  have "wf_gen (Suc n) h' ord cap' par lo hi a"
  proof (cases "?cs = []")
    case True
    then show ?thesis using Suc.prems(1) a by simp
  next
    case False
    then have kd: "kids (\<lambda>l u c. wf_gen n h ord cap (Some a) l u c) lo ?ks ?cs hi"
      using Suc.prems(1) by simp
    have "kids (\<lambda>l u c. wf_gen n h' ord cap' (Some a) l u c) lo ?ks ?cs hi"
      by (rule kids_mono [OF kd]) (use sub in blast)
    then show ?thesis using Suc.prems(1) a by simp
  qed
  then show ?case using nodes by simp
qed

lemma wf_gen_mono:
  "wf_gen n h ord cap par lo hi a \<Longrightarrow> wf_gen (Suc n) h ord cap par lo hi a"
proof (induction n arbitrary: par lo hi a)
  case 0
  then show ?case by simp
next
  case (Suc n)
  from Suc.prems have base: "a < length h" "order (h ! a) = ord" "parent (h ! a) = par"
    "keys_between lo (keys (h ! a)) hi" "int (length (keys (h ! a))) \<le> cap a"
    by simp_all
  show ?case
  proof (cases "children (h ! a) = []")
    case True
    then show ?thesis unfolding wf_gen.simps(2) [of "Suc n"] using base by blast
  next
    case False
    then have kd: "kids (\<lambda>l u c. wf_gen n h ord cap (Some a) l u c) lo (keys (h ! a)) (children (h ! a)) hi"
      using Suc.prems by simp
    have "kids (\<lambda>l u c. wf_gen (Suc n) h ord cap (Some a) l u c) lo (keys (h ! a)) (children (h ! a)) hi"
      by (rule kids_mono [OF kd]) (use Suc.IH in blast)
    then show ?thesis unfolding wf_gen.simps(2) [of "Suc n"] using base by blast
  qed
qed

lemma foldl_set_parent:
  "length (foldl (set_parent p) h cs) = length h \<and>
   (\<forall>x < length h. foldl (set_parent p) h cs ! x =
      (if x \<in> set cs then (h ! x)\<lparr>parent := Some p\<rparr> else h ! x))"
proof (induction cs arbitrary: h)
  case Nil
  then show ?case by simp
next
  case (Cons c cs)
  let ?h1 = "set_parent p h c"
  have l1: "length ?h1 = length h" by (simp add: set_parent_def)
  have n1: "?h1 ! x = (if x = c then (h ! x)\<lparr>parent := Some p\<rparr> else h ! x)" if "x < length h" for x
    using that by (simp add: set_parent_def nth_list_update)
  from Cons.IH [of ?h1] have
    len: "length (foldl (set_parent p) ?h1 cs) = length h"
    and nth: "\<And>x. x < length h \<Longrightarrow> foldl (set_parent p) ?h1 cs ! x =
      (if x \<in> set cs then (?h1 ! x)\<lparr>parent := Some p\<rparr> else ?h1 ! x)"
    using l1 by auto
  show ?case
  proof (intro conjI allI impI)
    show "length (foldl (set_parent p) h (c # cs)) = length h" using len by simp
    fix x assume x: "x < length h"
    show "foldl (set_parent p) h (c # cs) ! x =
      (if x \<in> set (c # cs) then (h ! x)\<lparr>parent := Some p\<rparr> else h ! x)"
      using nth [OF x] n1 [OF x] by auto
  qed
qed

lemma distinct_concat_map_nth:
  "distinct (concat (map f cs)) \<Longrightarrow> i < j \<Longrightarrow> j < length cs \<Longrightarrow>
   set (f (cs ! i)) \<inter> set (f (cs ! j)) = {}"
proof (induction cs arbitrary: i j)
  case Nil
  then show ?case by simp
next
  case (Cons c cs)
  obtain j' where j: "j = Suc j'" using Cons.prems(2) by (cases j) auto
  show ?case
  proof (cases i)
    case 0
    have "cs ! j' \<in> set cs" using Cons.prems(3) j by simp
    then show ?thesis using Cons.prems(1) 0 j by auto
  next
    case (Suc i')
    then show ?thesis using Cons.IH [of i' j'] Cons.prems j by auto
  qed
qed

lemma distinct_concat_map_each:
  "distinct (concat (map f cs)) \<Longrightarrow> c \<in> set cs \<Longrightarrow> distinct (f c)"
  by (induction cs) auto


lemma wf_gen_SucD:
  "wf_gen (Suc n) h ord cap par lo hi a \<Longrightarrow>
   a < length h \<and> order (h ! a) = ord \<and> parent (h ! a) = par \<and>
   keys_between lo (keys (h ! a)) hi \<and> int (length (keys (h ! a))) \<le> cap a"
  by simp

lemma wf_gen_kids:
  "wf_gen (Suc n) h ord cap par lo hi a \<Longrightarrow> children (h ! a) \<noteq> [] \<Longrightarrow>
   kids (\<lambda>l u c. wf_gen n h ord cap (Some a) l u c) lo (keys (h ! a)) (children (h ! a)) hi"
  by simp

lemma wf_gen_SucI:
  "a < length h \<Longrightarrow> order (h ! a) = ord \<Longrightarrow> parent (h ! a) = par \<Longrightarrow>
   keys_between lo (keys (h ! a)) hi \<Longrightarrow> int (length (keys (h ! a))) \<le> cap a \<Longrightarrow>
   children (h ! a) = [] \<or>
     kids (\<lambda>l u c. wf_gen n h ord cap (Some a) l u c) lo (keys (h ! a)) (children (h ! a)) hi \<Longrightarrow>
   wf_gen (Suc n) h ord cap par lo hi a"
  unfolding wf_gen.simps(2) by blast

lemma nodes_self: "a \<in> set (nodes_of n h a)"
  by (cases n) simp_all

lemma nodes_child_subset:
  "c \<in> set (children (h ! a)) \<Longrightarrow> set (nodes_of n h c) \<subseteq> set (nodes_of (Suc n) h a)"
  by auto

lemma distinct_nodes_root:
  "distinct (nodes_of (Suc n) h a) \<Longrightarrow> c \<in> set (children (h ! a)) \<Longrightarrow>
   a \<notin> set (nodes_of n h c) \<and> distinct (nodes_of n h c)"
  by (auto dest: distinct_concat_map_each)

lemma distinct_nodes_disjoint:
  assumes "distinct (nodes_of (Suc n) h a)" "i < length (children (h ! a))"
    "j < length (children (h ! a))" "i \<noteq> j"
  shows "set (nodes_of n h (children (h ! a) ! i)) \<inter> set (nodes_of n h (children (h ! a) ! j)) = {}"
proof -
  have d: "distinct (concat (map (nodes_of n h) (children (h ! a))))" using assms(1) by simp
  show ?thesis
  proof (cases "i < j")
    case True
    then show ?thesis using distinct_concat_map_nth [OF d True assms(3)] by simp
  next
    case False
    then have "j < i" using assms(4) by simp
    then show ?thesis using distinct_concat_map_nth [OF d _ assms(2), of j] by blast
  qed
qed

subsection \<open>Key positions\<close>

lemma first_greater_position:
  "j \<le> length ks \<Longrightarrow> (\<forall>i < j. ks ! i < m) \<Longrightarrow> (j < length ks \<longrightarrow> m < ks ! j) \<Longrightarrow>
   first_greater ks m b = (if j < length ks then Some (b + j) else None)"
proof (induction ks arbitrary: j b)
  case Nil
  then show ?case by simp
next
  case (Cons k ks)
  show ?case
  proof (cases j)
    case 0
    then show ?thesis using Cons.prems by auto
  next
    case (Suc j')
    have "k < m" using Cons.prems(2) Suc by auto
    moreover have "first_greater ks m (Suc b) = (if j' < length ks then Some (Suc b + j') else None)"
      using Cons.prems Suc by (intro Cons.IH) auto
    ultimately show ?thesis using Suc by simp
  qed
qed

lemma below_position:
  assumes "keys_between lo ks hi" "j \<le> length ks" "above (lower lo ks j) v"
  shows "\<forall>i < j. ks ! i < v"
proof (intro allI impI)
  fix i assume i: "i < j"
  have s: "sorted_wrt (<) ks" using assms(1) by (simp add: keys_between_def)
  have "ks ! (j - 1) < v" using assms(3) i by (simp add: lower_def above_def)
  moreover have "ks ! i \<le> ks ! (j - 1)"
  proof (cases "i = j - 1")
    case False
    then have "i < j - 1" using i by simp
    then have "ks ! i < ks ! (j - 1)"
      using s assms(2) i by (simp add: sorted_wrt_iff_nth_less)
    then show ?thesis by simp
  qed simp
  ultimately show "ks ! i < v" by simp
qed

lemma above_position:
  assumes "below (upper ks hi j) v"
  shows "j < length ks \<longrightarrow> v < ks ! j"
  using assms by (auto simp: upper_def below_def)

lemma keys_between_insert:
  assumes kb: "keys_between lo ks hi" and j: "j \<le> length ks"
    and a: "above (lower lo ks j) v" and b: "below (upper ks hi j) v"
  shows "keys_between lo (take j ks @ v # drop j ks) hi"
proof -
  have s: "sorted_wrt (<) ks" and bd: "\<forall>k \<in> set ks. above lo k \<and> below hi k"
    using kb by (simp_all add: keys_between_def list_all_iff)
  have lt: "\<forall>k \<in> set (take j ks). k < v"
  proof
    fix k assume "k \<in> set (take j ks)"
    then obtain i where "i < j" "i < length ks" "k = ks ! i"
      by (auto simp: in_set_conv_nth)
    then show "k < v" using below_position [OF kb j a] by simp
  qed
  have gt: "\<forall>k \<in> set (drop j ks). v < k"
  proof
    fix k assume "k \<in> set (drop j ks)"
    then obtain i where i: "i < length ks - j" "k = ks ! (j + i)"
      by (auto simp: in_set_conv_nth)
    then have jl: "j < length ks" by simp
    then have "v < ks ! j" using above_position [OF b] by simp
    moreover have "ks ! j \<le> ks ! (j + i)"
    proof (cases "i = 0")
      case False
      then have "ks ! j < ks ! (j + i)" using s i by (simp add: sorted_wrt_iff_nth_less)
      then show ?thesis by simp
    qed simp
    ultimately show "v < k" using i by simp
  qed
  have srt: "sorted_wrt (<) (take j ks @ v # drop j ks)"
  proof -
    have st: "sorted_wrt (<) (take j ks)" using s by (rule sorted_wrt_take)
    have sd: "sorted_wrt (<) (drop j ks)" using s by (rule sorted_wrt_drop)
    have cross: "x < y" if "x \<in> set (take j ks)" "y \<in> set (drop j ks)" for x y
      using lt gt that by force
    show ?thesis using st sd lt gt cross by (simp add: sorted_wrt_append)
  qed
  have av: "above lo v"
    by (rule above_lower [OF kb j a])
  have bv: "below hi v"
    by (rule below_upper [OF kb b])
  have "\<forall>k \<in> set (take j ks @ v # drop j ks). above lo k \<and> below hi k"
    using bd av bv by (auto dest: in_set_takeD in_set_dropD)
  then show ?thesis using srt by (simp add: keys_between_def list_all_iff)
qed

lemma keys_between_split:
  assumes kb: "keys_between lo ks hi" and i: "i < length ks"
  shows "keys_between lo (take i ks) (Some (ks ! i))"
    and "keys_between (Some (ks ! i)) (drop (Suc i) ks) hi"
    and "above lo (ks ! i)" and "below hi (ks ! i)"
proof -
  have s: "sorted_wrt (<) ks" and bd: "\<forall>k \<in> set ks. above lo k \<and> below hi k"
    using kb by (simp_all add: keys_between_def list_all_iff)
  have id: "ks = take i ks @ ks ! i # drop (Suc i) ks" using i by (simp add: id_take_nth_drop)
  have s2: "sorted_wrt (<) (take i ks @ ks ! i # drop (Suc i) ks)" using s id by simp
  then have st: "sorted_wrt (<) (take i ks)" and sd: "sorted_wrt (<) (drop (Suc i) ks)"
    and lt: "\<forall>k \<in> set (take i ks). k < ks ! i" and gt: "\<forall>k \<in> set (drop (Suc i) ks). ks ! i < k"
    by (auto simp: sorted_wrt_append)
  show "keys_between lo (take i ks) (Some (ks ! i))"
    using st lt bd by (auto simp: keys_between_def list_all_iff below_def dest: in_set_takeD)
  show "keys_between (Some (ks ! i)) (drop (Suc i) ks) hi"
    using sd gt bd by (auto simp: keys_between_def list_all_iff above_def dest: in_set_dropD)
  show "above lo (ks ! i)" "below hi (ks ! i)" using bd i by simp_all
qed

lemma keys_between_weaken:
  "keys_between lo ks hi \<Longrightarrow> (\<And>k. above lo k \<Longrightarrow> above lo' k) \<Longrightarrow>
   (\<And>k. below hi k \<Longrightarrow> below hi' k) \<Longrightarrow> keys_between lo' ks hi'"
  by (auto simp: keys_between_def list_all_iff)

lemma scan_keys_cases:
  assumes kb: "keys_between lo ks hi" and a: "above lo v" and b: "below hi v"
  shows "(\<exists>i. scan_keys ks v = Found i) \<or>
         (\<exists>j \<le> length ks. scan_keys ks v = (if j < length ks then Greater j else Exhausted) \<and>
            above (lower lo ks j) v \<and> below (upper ks hi j) v)"
proof (cases "v \<in> set ks")
  case True
  then show ?thesis
    using kb scan_from_found [of ks v 0] by (auto simp: keys_between_def scan_keys_def)
next
  case False
  let ?j = "length (takeWhile (\<lambda>k. k < v) ks)"
  have j: "?j \<le> length ks" by (rule length_takeWhile_le)
  have lt: "ks ! i < v" if "i < ?j" for i
  proof -
    have "takeWhile (\<lambda>k. k < v) ks ! i \<in> set (takeWhile (\<lambda>k. k < v) ks)"
      using that by simp
    then have "takeWhile (\<lambda>k. k < v) ks ! i < v" by (rule set_takeWhileD [THEN conjunct2])
    then show ?thesis using that by (simp add: takeWhile_nth)
  qed
  have gt: "v < ks ! ?j" if "?j < length ks"
  proof -
    have "\<not> ks ! ?j < v" using that by (rule nth_length_takeWhile)
    moreover have "ks ! ?j \<noteq> v" using False that by (metis nth_mem)
    ultimately show ?thesis by simp
  qed
  have lo: "above (lower lo ks ?j) v"
    using a lt [of "?j - 1"] by (simp add: lower_def above_def)
  have up: "below (upper ks hi ?j) v"
    using b gt by (simp add: upper_def below_def)
  have "scan_keys ks v = (if ?j < length ks then Greater ?j else Exhausted)"
    by (rule scan_keys_child [OF kb j lo up])
  then show ?thesis using j lo up by blast
qed

subsection \<open>One step of \<open>_insert_recurse\<close>\<close>

declare wf_gen.simps [simp del]

lemma concat_map_split:
  "j < length cs \<Longrightarrow>
   concat (map f cs) = concat (map f (take j cs)) @ f (cs ! j) @ concat (map f (drop (Suc j) cs))"
proof -
  assume "j < length cs"
  then have "cs = take j cs @ cs ! j # drop (Suc j) cs" by (simp add: id_take_nth_drop)
  then have "concat (map f cs) = concat (map f (take j cs @ cs ! j # drop (Suc j) cs))" by simp
  then show ?thesis by simp
qed

lemma other_child_index:
  assumes "x \<in> set (take j cs) \<union> set (drop (Suc j) cs)"
  shows "\<exists>i < length cs. i \<noteq> j \<and> cs ! i = x"
proof -
  from assms consider "x \<in> set (take j cs)" | "x \<in> set (drop (Suc j) cs)" by blast
  then show ?thesis
  proof cases
    case 1
    then obtain i where "i < length (take j cs)" "take j cs ! i = x" by (auto simp: in_set_conv_nth)
    then have "i < length cs" "i \<noteq> j" "cs ! i = x" by auto
    then show ?thesis by blast
  next
    case 2
    then obtain i where i: "i < length (drop (Suc j) cs)" "drop (Suc j) cs ! i = x"
      by (auto simp: in_set_conv_nth)
    then have "Suc j + i < length cs" "Suc j + i \<noteq> j" "cs ! (Suc j + i) = x" by auto
    then show ?thesis by blast
  qed
qed

lemma distinct_replace_middle:
  "distinct (a # A @ C @ B) \<Longrightarrow> \<forall>x \<in> set (a # A @ C @ B). x < N \<Longrightarrow>
   distinct (a # A @ N # Suc N # B)"
proof -
  assume d: "distinct (a # A @ C @ B)" and lt: "\<forall>x \<in> set (a # A @ C @ B). x < N"
  have "N \<notin> set (a # A @ B)" "Suc N \<notin> set (a # A @ B)" using lt by fastforce+
  then show ?thesis using d by auto
qed

lemma recurse_step:
  assumes wf: "wf_gen (Suc n) h ord (cap_at ord c) par lo hi a"
    and dist: "distinct (nodes_of (Suc n) h a)"
    and j: "j < length (children (h ! a))" and c: "children (h ! a) ! j = c"
    and mi: "mi < length (keys (h ! c))"
    and szl: "int mi \<le> ord" and szr: "int (length (keys (h ! c))) - int mi - 1 \<le> ord"
  shows "\<exists>h3. (\<forall>f. insert_recurse (Suc f) h a (keys (h ! c) ! mi) (take mi (keys (h ! c)))
                   (drop (Suc mi) (keys (h ! c))) =
                 (if int (length (keys (h3 ! a))) > ord then insert_median_split f h3 a else Inr h3)) \<and>
          wf_gen (Suc n) h3 ord (cap_at ord a) par lo hi a \<and>
          distinct (nodes_of (Suc n) h3 a) \<and>
          set (nodes_of (Suc n) h3 a) \<subseteq> set (nodes_of (Suc n) h a) \<union> {length h ..< length h3} \<and>
          length h \<le> length h3 \<and> (\<forall>x < length h. x \<noteq> a \<longrightarrow> h3 ! x = h ! x)"
proof -
  let ?ks = "keys (h ! a)" and ?cs = "children (h ! a)" and ?kc = "keys (h ! c)"
  let ?m = "?kc ! mi" and ?left = "take mi ?kc" and ?right = "drop (Suc mi) ?kc"
  let ?cap = "cap_at ord c" and ?cap' = "cap_at ord a"
  from wf_gen_SucD [OF wf] have a: "a < length h" and oa: "order (h ! a) = ord"
    and pa: "parent (h ! a) = par" and kb: "keys_between lo ?ks hi"
    and capa: "int (length ?ks) \<le> ?cap a" by simp_all
  have ne: "?cs \<noteq> []" using j by auto
  note kd = wf_gen_kids [OF wf ne]
  have lencs: "length ?cs = Suc (length ?ks)" using kd by (rule kids_length)
  have jle: "j \<le> length ?ks" using j lencs by simp
  have cmem: "c \<in> set ?cs" using j c by auto
  have wfc: "wf_gen n h ord ?cap (Some a) (lower lo ?ks j) (upper ?ks hi j) c"
    using kd j c by (auto simp: kids_nth)
  then have "0 < n" by (rule wf_gen_pos)
  then obtain n' where n: "n = Suc n'" by (cases n) auto
  from wf_gen_SucD [OF wfc [unfolded n]] have cl: "c < length h"
    and kbc: "keys_between (lower lo ?ks j) ?kc (upper ?ks hi j)" by simp_all
  have ac: "a \<noteq> c" using distinct_nodes_root [OF dist cmem] nodes_self [of c n h] by auto
  then have lena: "int (length ?ks) \<le> ord" using capa by (simp add: cap_at_def)
  note sp = keys_between_split [OF kbc mi]
  have pos: "first_greater ?ks ?m 0 = (if j < length ?ks then Some j else None)"
    using first_greater_position [OF jle below_position [OF kb jle sp(3)] above_position [OF sp(4)], of 0]
    by simp
  define L where "L = length h"
  define R where "R = Suc (length h)"
  define ks' where "ks' = take j ?ks @ ?m # drop j ?ks"
  define cs' where "cs' = take j ?cs @ L # R # drop (Suc j) ?cs"
  define nl where "nl = \<lparr>order = ord, keys = ?left, children = [], parent = Some a\<rparr>"
  define nr where "nr = \<lparr>order = ord, keys = ?right, children = [], parent = Some a\<rparr>"
  define h3 where "h3 = (h @ [nl, nr])[a := (h ! a)\<lparr>keys := ks', children := cs'\<rparr>]"
  have len3: "length h3 = length h + 2" by (simp add: h3_def)
  have h3a: "h3 ! a = (h ! a)\<lparr>keys := ks', children := cs'\<rparr>" using a by (simp add: h3_def)
  have h3x: "h3 ! x = h ! x" if "x < length h" "x \<noteq> a" for x
    using that by (simp add: h3_def nth_append)
  have h3L: "h3 ! L = nl" using a by (simp add: h3_def L_def nth_append)
  have h3R: "h3 ! R = nr" using a by (simp add: h3_def R_def nth_append)
  have run: "insert_recurse (Suc f) h a ?m ?left ?right =
      (if int (length (keys (h3 ! a))) > ord then insert_median_split f h3 a else Inr h3)" for f
  proof (cases "j < length ?ks")
    case True
    then show ?thesis
      using a oa pos
      by (simp add: load_in BTree_def Let_def h3_def ks'_def cs'_def nl_def nr_def L_def R_def)
  next
    case False
    then have jl: "j = length ?ks" using jle by simp
    then have "butlast ?cs = take j ?cs" "drop (Suc j) ?cs = []" "take j ?ks = ?ks" "drop j ?ks = []"
      using lencs by (simp_all add: butlast_conv_take)
    then show ?thesis
      using a oa pos jl
      by (simp add: load_in BTree_def Let_def h3_def ks'_def cs'_def nl_def nr_def L_def R_def)
  qed
  have old: "wf_gen n h3 ord ?cap' (Some a) l u x \<and> nodes_of n h3 x = nodes_of n h x"
    if x: "x \<in> set (take j ?cs) \<union> set (drop (Suc j) ?cs)" and w: "wf_gen n h ord ?cap (Some a) l u x"
    for l u x
  proof (rule wf_gen_frame [OF w])
    fix y assume y: "y \<in> set (nodes_of n h x)"
    from other_child_index [OF x] obtain i where i: "i < length ?cs" "i \<noteq> j" "?cs ! i = x" by blast
    have xmem: "x \<in> set ?cs" using i by auto
    have yl: "y < length h" using wf_gen_nodes_lt [OF w y] .
    have ya: "y \<noteq> a" using distinct_nodes_root [OF dist xmem] y by auto
    have "set (nodes_of n h x) \<inter> set (nodes_of n h c) = {}"
      using distinct_nodes_disjoint [OF dist i(1) j i(2)] i(3) c by simp
    then have yc: "y \<noteq> c" using y nodes_self [of c n h] by auto
    show "y < length h3 \<and> h3 ! y = h ! y \<and>
      (int (length (keys (h ! y))) \<le> ?cap y \<longrightarrow> int (length (keys (h ! y))) \<le> ?cap' y)"
      using yl ya yc h3x [OF yl ya] len3 by (simp add: cap_at_def)
  qed
  have La: "L \<noteq> a" "R \<noteq> a" using a by (simp_all add: L_def R_def)
  have wfL: "wf_gen n h3 ord ?cap' (Some a) (lower lo ?ks j) (Some ?m) L"
    unfolding n
  proof (rule wf_gen_SucI)
    show "L < length h3" using len3 by (simp add: L_def)
    show "int (length (keys (h3 ! L))) \<le> ?cap' L"
      using szl La mi by (simp add: h3L nl_def cap_at_def)
  qed (simp_all add: h3L nl_def sp)
  have wfR: "wf_gen n h3 ord ?cap' (Some a) (Some ?m) (upper ?ks hi j) R"
    unfolding n
  proof (rule wf_gen_SucI)
    show "R < length h3" using len3 by (simp add: R_def)
    show "int (length (keys (h3 ! R))) \<le> ?cap' R"
      using szr La mi by (simp add: h3R nr_def cap_at_def)
  qed (simp_all add: h3R nr_def sp)
  have kd': "kids (\<lambda>l u x. wf_gen n h3 ord ?cap' (Some a) l u x) lo ks' cs' hi"
    unfolding ks'_def cs'_def
    by (rule kids_replace [OF kd j _ wfL wfR]) (use old in blast)
  have kb': "keys_between lo ks' hi"
    unfolding ks'_def by (rule keys_between_insert [OF kb jle sp(3) sp(4)])
  have wf3: "wf_gen (Suc n) h3 ord ?cap' par lo hi a"
  proof (rule wf_gen_SucI)
    show "a < length h3" using a len3 by simp
    show "int (length (keys (h3 ! a))) \<le> ?cap' a"
      using lena by (simp add: h3a ks'_def cap_at_def)
    show "children (h3 ! a) = [] \<or>
      kids (\<lambda>l u c. wf_gen n h3 ord ?cap' (Some a) l u c) lo (keys (h3 ! a)) (children (h3 ! a)) hi"
      using kd' by (simp add: h3a)
  qed (simp_all add: h3a oa pa kb')
  let ?A = "concat (map (nodes_of n h) (take j ?cs))"
  let ?B = "concat (map (nodes_of n h) (drop (Suc j) ?cs))"
  have mapA: "map (nodes_of n h3) (take j ?cs) = map (nodes_of n h) (take j ?cs)"
  proof (rule map_cong [OF refl])
    fix x assume x: "x \<in> set (take j ?cs)"
    then have "x \<in> set ?cs" by (rule in_set_takeD)
    from kids_elem [OF kd this] obtain l u where "wf_gen n h ord ?cap (Some a) l u x" by blast
    then show "nodes_of n h3 x = nodes_of n h x" using old x by blast
  qed
  have mapB: "map (nodes_of n h3) (drop (Suc j) ?cs) = map (nodes_of n h) (drop (Suc j) ?cs)"
  proof (rule map_cong [OF refl])
    fix x assume x: "x \<in> set (drop (Suc j) ?cs)"
    then have "x \<in> set ?cs" by (rule in_set_dropD)
    from kids_elem [OF kd this] obtain l u where "wf_gen n h ord ?cap (Some a) l u x" by blast
    then show "nodes_of n h3 x = nodes_of n h x" using old x by blast
  qed
  have nL: "nodes_of n h3 L = [L]" "nodes_of n h3 R = [R]"
    by (simp_all add: n h3L h3R nl_def nr_def)
  have cA: "concat (map (nodes_of n h3) (take j ?cs)) = ?A" using mapA by (rule arg_cong)
  have cB: "concat (map (nodes_of n h3) (drop (Suc j) ?cs)) = ?B" using mapB by (rule arg_cong)
  have nodes3: "nodes_of (Suc n) h3 a = a # ?A @ L # R # ?B"
    by (simp add: h3a cs'_def cA cB nL)
  have nodes0: "nodes_of (Suc n) h a = a # ?A @ nodes_of n h c @ ?B"
    using concat_map_split [OF j, of "nodes_of n h"] c by simp
  have lt: "\<forall>x \<in> set (nodes_of (Suc n) h a). x < length h"
    using wf_gen_nodes_lt [OF wf] by blast
  have d3: "distinct (nodes_of (Suc n) h3 a)"
    using dist lt unfolding nodes3 nodes0 L_def R_def by (rule distinct_replace_middle)
  have sub: "set (nodes_of (Suc n) h3 a) \<subseteq> set (nodes_of (Suc n) h a) \<union> {length h ..< length h3}"
    unfolding nodes3 nodes0 using len3 by (auto simp: L_def R_def)
  show ?thesis
    using run wf3 d3 sub len3 h3x by (intro exI [of _ h3]) auto
qed

subsection \<open>Splitting a node that is not the root\<close>

lemma distinct_replace_sub:
  assumes d: "distinct (a # A @ C @ B)" and lt: "\<forall>x \<in> set (a # A @ C @ B). x < N"
    and d': "distinct C'" and sub: "set C' \<subseteq> set C \<union> {N ..< (M::nat)}"
  shows "distinct (a # A @ C' @ B)"
proof -
  have "x \<notin> set (a # A @ B)" if "x \<in> set C'" for x
  proof (cases "x \<in> set C")
    case True
    then show ?thesis using d by auto
  next
    case False
    then have nx: "N \<le> x" using sub that by auto
    show ?thesis
    proof
      assume "x \<in> set (a # A @ B)"
      then have "x \<in> set (a # A @ C @ B)" by auto
      then have "x < N" using lt by blast
      then show False using nx by simp
    qed
  qed
  then show ?thesis using d d' by auto
qed

lemma lift_child:
  assumes wf: "wf_gen (Suc n) h ord cap par lo hi a"
    and dist: "distinct (nodes_of (Suc n) h a)"
    and j: "j < length (children (h ! a))" and c: "children (h ! a) ! j = c"
    and wf1: "wf_gen n h1 ord cap1 (Some a) (lower lo (keys (h ! a)) j) (upper (keys (h ! a)) hi j) c"
    and d1: "distinct (nodes_of n h1 c)"
    and sub1: "set (nodes_of n h1 c) \<subseteq> set (nodes_of n h c) \<union> {length h ..< length h1}"
    and len1: "length h \<le> length h1"
    and agree: "\<forall>x < length h. x \<notin> set (nodes_of n h c) \<longrightarrow> h1 ! x = h ! x"
    and caps: "\<forall>x < length h. x \<notin> set (nodes_of n h c) \<longrightarrow>
        int (length (keys (h ! x))) \<le> cap x \<longrightarrow> int (length (keys (h ! x))) \<le> cap1 x"
  shows "wf_gen (Suc n) h1 ord cap1 par lo hi a \<and> distinct (nodes_of (Suc n) h1 a) \<and>
         set (nodes_of (Suc n) h1 a) \<subseteq> set (nodes_of (Suc n) h a) \<union> {length h ..< length h1} \<and>
         (\<forall>x < length h. x \<notin> set (nodes_of (Suc n) h a) \<longrightarrow> h1 ! x = h ! x) \<and>
         (nodes_of n h1 c = nodes_of n h c \<longrightarrow> nodes_of (Suc n) h1 a = nodes_of (Suc n) h a)"
proof -
  let ?ks = "keys (h ! a)" and ?cs = "children (h ! a)"
  from wf_gen_SucD [OF wf] have a: "a < length h" and oa: "order (h ! a) = ord"
    and pa: "parent (h ! a) = par" and kb: "keys_between lo ?ks hi"
    and capa: "int (length ?ks) \<le> cap a" by simp_all
  have ne: "?cs \<noteq> []" using j by auto
  note kd = wf_gen_kids [OF wf ne]
  have cmem: "c \<in> set ?cs" using j c by auto
  have anc: "a \<notin> set (nodes_of n h c)" using distinct_nodes_root [OF dist cmem] by simp
  then have h1a: "h1 ! a = h ! a" using agree a by simp
  have capa1: "int (length ?ks) \<le> cap1 a" using caps a anc capa by simp
  have old: "wf_gen n h1 ord cap1 (Some a) l u x \<and> nodes_of n h1 x = nodes_of n h x"
    if i: "i < length ?cs" "i \<noteq> j" "?cs ! i = x" and w: "wf_gen n h ord cap (Some a) l u x"
    for i l u x
  proof (rule wf_gen_frame [OF w])
    fix y assume y: "y \<in> set (nodes_of n h x)"
    have yl: "y < length h" using wf_gen_nodes_lt [OF w y] .
    have "set (nodes_of n h x) \<inter> set (nodes_of n h c) = {}"
      using distinct_nodes_disjoint [OF dist i(1) j i(2)] i(3) c by simp
    then have yc: "y \<notin> set (nodes_of n h c)" using y by auto
    show "y < length h1 \<and> h1 ! y = h ! y \<and>
      (int (length (keys (h ! y))) \<le> cap y \<longrightarrow> int (length (keys (h ! y))) \<le> cap1 y)"
      using yl yc agree caps len1 by simp
  qed
  have kd1: "kids (\<lambda>l u x. wf_gen n h1 ord cap1 (Some a) l u x) lo ?ks ?cs hi"
    unfolding kids_nth
  proof (intro conjI allI impI)
    show "length ?cs = Suc (length ?ks)" using kd by (rule kids_length)
    fix i assume i: "i < length ?cs"
    have w: "wf_gen n h ord cap (Some a) (lower lo ?ks i) (upper ?ks hi i) (?cs ! i)"
      using kd i by (simp add: kids_nth)
    show "wf_gen n h1 ord cap1 (Some a) (lower lo ?ks i) (upper ?ks hi i) (?cs ! i)"
    proof (cases "i = j")
      case True
      then show ?thesis using wf1 c by simp
    next
      case False
      then show ?thesis using old [OF i False refl w] by simp
    qed
  qed
  have wfa: "wf_gen (Suc n) h1 ord cap1 par lo hi a"
  proof (rule wf_gen_SucI)
    show "a < length h1" using a len1 by simp
    show "children (h1 ! a) = [] \<or>
      kids (\<lambda>l u c. wf_gen n h1 ord cap1 (Some a) l u c) lo (keys (h1 ! a)) (children (h1 ! a)) hi"
      using kd1 by (simp add: h1a)
  qed (simp_all add: h1a oa pa kb capa1)
  let ?A = "concat (map (nodes_of n h) (take j ?cs))"
  let ?B = "concat (map (nodes_of n h) (drop (Suc j) ?cs))"
  have same: "nodes_of n h1 x = nodes_of n h x" if x: "x \<in> set (take j ?cs) \<union> set (drop (Suc j) ?cs)" for x
  proof -
    from other_child_index [OF x] obtain i where i: "i < length ?cs" "i \<noteq> j" "?cs ! i = x" by blast
    then have "x \<in> set ?cs" by auto
    from kids_elem [OF kd this] obtain l u where "wf_gen n h ord cap (Some a) l u x" by blast
    then show ?thesis using old [OF i] by blast
  qed
  have "map (nodes_of n h1) (take j ?cs) = map (nodes_of n h) (take j ?cs)"
    by (rule map_cong [OF refl]) (use same in blast)
  then have cA: "concat (map (nodes_of n h1) (take j ?cs)) = ?A" by (rule arg_cong)
  have "map (nodes_of n h1) (drop (Suc j) ?cs) = map (nodes_of n h) (drop (Suc j) ?cs)"
    by (rule map_cong [OF refl]) (use same in blast)
  then have cB: "concat (map (nodes_of n h1) (drop (Suc j) ?cs)) = ?B" by (rule arg_cong)
  have nodes1: "nodes_of (Suc n) h1 a = a # ?A @ nodes_of n h1 c @ ?B"
    using concat_map_split [OF j, of "nodes_of n h1"] c by (simp add: h1a cA cB)
  have nodes0: "nodes_of (Suc n) h a = a # ?A @ nodes_of n h c @ ?B"
    using concat_map_split [OF j, of "nodes_of n h"] c by simp
  have lt: "\<forall>x \<in> set (nodes_of (Suc n) h a). x < length h"
    using wf_gen_nodes_lt [OF wf] by blast
  have dd: "distinct (nodes_of (Suc n) h1 a)"
    unfolding nodes1
    by (rule distinct_replace_sub [OF dist [unfolded nodes0] lt [unfolded nodes0] d1 sub1])
  have sub: "set (nodes_of (Suc n) h1 a) \<subseteq> set (nodes_of (Suc n) h a) \<union> {length h ..< length h1}"
    unfolding nodes1 nodes0 using sub1 by auto
  have ag: "\<forall>x < length h. x \<notin> set (nodes_of (Suc n) h a) \<longrightarrow> h1 ! x = h ! x"
    using agree unfolding nodes0 by auto
  have eq: "nodes_of n h1 c = nodes_of n h c \<longrightarrow> nodes_of (Suc n) h1 a = nodes_of (Suc n) h a"
    unfolding nodes1 nodes0 by simp
  show ?thesis using wfa dd sub ag eq by blast
qed

lemma split_nonroot:
  "c < length h \<Longrightarrow> parent (h ! c) = Some a \<Longrightarrow> keys (h ! c) \<noteq> [] \<Longrightarrow>
   insert_median_split (Suc f) h c =
     insert_recurse f h a (keys (h ! c) ! (length (keys (h ! c)) div 2))
       (take (length (keys (h ! c)) div 2) (keys (h ! c)))
       (drop (Suc (length (keys (h ! c)) div 2)) (keys (h ! c)))"
proof -
  assume c: "c < length h" and p: "parent (h ! c) = Some a" and k: "keys (h ! c) \<noteq> []"
  have "0 < length (keys (h ! c))" using k by simp
  then have "\<not> length (keys (h ! c)) \<le> length (keys (h ! c)) div 2" by arith
  then show ?thesis using c p by (simp add: load_in Let_def)
qed

lemma wf_gen_cap_weaken:
  "wf_gen n h ord cap par lo hi a \<Longrightarrow>
   (\<And>x. x \<in> set (nodes_of n h a) \<Longrightarrow> int (length (keys (h ! x))) \<le> cap x \<Longrightarrow>
      int (length (keys (h ! x))) \<le> cap' x) \<Longrightarrow>
   wf_gen n h ord cap' par lo hi a"
proof -
  assume w: "wf_gen n h ord cap par lo hi a"
    and c: "\<And>x. x \<in> set (nodes_of n h a) \<Longrightarrow> int (length (keys (h ! x))) \<le> cap x \<Longrightarrow>
      int (length (keys (h ! x))) \<le> cap' x"
  have "wf_gen n h ord cap' par lo hi a \<and> nodes_of n h a = nodes_of n h a"
    by (rule wf_gen_frame [OF w]) (use c wf_gen_nodes_lt [OF w] in blast)
  then show ?thesis by simp
qed

subsection \<open>Splits propagate upwards\<close>

lemma median_sizes:
  assumes "int (length ks) = ord + 1" "1 \<le> ord"
  shows "length ks div 2 < length ks" "int (length ks div 2) \<le> ord"
    "int (length ks) - int (length ks div 2) - 1 \<le> ord" "ks \<noteq> []"
  using assms by auto

lemma split_up:
  assumes "wf_gen n h ord (cap_at ord s) par lo hi a" "distinct (nodes_of n h a)"
    "s \<in> set (nodes_of n h a)" "int (length (keys (h ! s))) = ord + 1" "1 \<le> ord"
  shows "\<exists>k h1. k + 2 \<le> 2 * n \<and> split_frame n h a h1 \<and>
     ((\<forall>f. insert_median_split (k + f) h s = insert_median_split f h1 a) \<and>
        wf_gen n h1 ord (cap_at ord a) par lo hi a \<and> int (length (keys (h1 ! a))) = ord + 1
      \<or> (\<forall>f. insert_median_split (k + f) h s = Inr h1) \<and>
        wf_gen n h1 ord (\<lambda>x. ord) par lo hi a)"
  using assms
proof (induction n arbitrary: par lo hi a)
  case 0
  then show ?case by (simp add: wf_gen.simps)
next
  case (Suc n)
  note wf = Suc.prems(1) and dist = Suc.prems(2) and smem = Suc.prems(3)
    and lens = Suc.prems(4) and ord = Suc.prems(5)
  show ?case
  proof (cases "a = s")
    case True
    have "split_frame (Suc n) h a h" using dist by (simp add: split_frame_def)
    moreover have "\<forall>f. insert_median_split (0 + f) h s = insert_median_split f h a"
      using True by simp
    ultimately show ?thesis using wf lens True by (intro exI [of _ 0] exI [of _ h]) simp
  next
    case False
    let ?ks = "keys (h ! a)" and ?cs = "children (h ! a)"
    from smem False obtain c0 where "c0 \<in> set ?cs" "s \<in> set (nodes_of n h c0)" by auto
    then obtain j where j: "j < length ?cs" and sj: "s \<in> set (nodes_of n h (?cs ! j))"
      by (auto simp: in_set_conv_nth)
    define c where "c = ?cs ! j"
    have cj: "?cs ! j = c" by (simp add: c_def)
    have sc: "s \<in> set (nodes_of n h c)" using sj by (simp add: c_def)
    have ne: "?cs \<noteq> []" using j by auto
    have cmem: "c \<in> set ?cs" using j by (simp add: c_def)
    note kd = wf_gen_kids [OF wf ne]
    have wfc: "wf_gen n h ord (cap_at ord s) (Some a) (lower lo ?ks j) (upper ?ks hi j) c"
      using kd j by (simp add: kids_nth c_def)
    have dc: "distinct (nodes_of n h c)" and anc: "a \<notin> set (nodes_of n h c)"
      using distinct_nodes_root [OF dist cmem] by simp_all
    have a: "a < length h" using wf_gen_SucD [OF wf] by simp
    from Suc.IH [OF wfc dc sc lens ord] obtain k h1 where
      bnd: "k + 2 \<le> 2 * n" and fr: "split_frame n h c h1"
      and alt: "(\<forall>f. insert_median_split (k + f) h s = insert_median_split f h1 c) \<and>
          wf_gen n h1 ord (cap_at ord c) (Some a) (lower lo ?ks j) (upper ?ks hi j) c \<and>
          int (length (keys (h1 ! c))) = ord + 1
        \<or> (\<forall>f. insert_median_split (k + f) h s = Inr h1) \<and>
          wf_gen n h1 ord (\<lambda>x. ord) (Some a) (lower lo ?ks j) (upper ?ks hi j) c"
      by blast
    from fr have len1: "length h \<le> length h1"
      and ag1: "\<forall>x < length h. x \<notin> set (nodes_of n h c) \<longrightarrow> h1 ! x = h ! x"
      and d1: "distinct (nodes_of n h1 c)"
      and sub1: "set (nodes_of n h1 c) \<subseteq> set (nodes_of n h c) \<union> {length h ..< length h1}"
      by (simp_all add: split_frame_def)
    have h1a: "h1 ! a = h ! a" using ag1 a anc by simp
    from alt show ?thesis
    proof (elim disjE conjE)
      assume red: "\<forall>f. insert_median_split (k + f) h s = insert_median_split f h1 c"
        and wf1: "wf_gen n h1 ord (cap_at ord c) (Some a) (lower lo ?ks j) (upper ?ks hi j) c"
        and lenc: "int (length (keys (h1 ! c))) = ord + 1"
      have caps: "\<forall>x < length h. x \<notin> set (nodes_of n h c) \<longrightarrow>
          int (length (keys (h ! x))) \<le> cap_at ord s x \<longrightarrow>
          int (length (keys (h ! x))) \<le> cap_at ord c x"
        using sc by (auto simp: cap_at_def)
      from lift_child [OF wf dist j cj wf1 d1 sub1 len1 ag1 caps]
      have wfa1: "wf_gen (Suc n) h1 ord (cap_at ord c) par lo hi a"
        and da1: "distinct (nodes_of (Suc n) h1 a)"
        and suba1: "set (nodes_of (Suc n) h1 a) \<subseteq> set (nodes_of (Suc n) h a) \<union> {length h ..< length h1}"
        and aga1: "\<forall>x < length h. x \<notin> set (nodes_of (Suc n) h a) \<longrightarrow> h1 ! x = h ! x"
        by simp_all
      have j1: "j < length (children (h1 ! a))" and c1: "children (h1 ! a) ! j = c"
        using j cj by (simp_all add: h1a)
      note ms = median_sizes [OF lenc ord]
      from recurse_step [OF wfa1 da1 j1 c1 ms(1) ms(2) ms(3)] obtain h3 where
        run3: "\<And>f. insert_recurse (Suc f) h1 a
                 (keys (h1 ! c) ! (length (keys (h1 ! c)) div 2))
                 (take (length (keys (h1 ! c)) div 2) (keys (h1 ! c)))
                 (drop (Suc (length (keys (h1 ! c)) div 2)) (keys (h1 ! c))) =
               (if int (length (keys (h3 ! a))) > ord then insert_median_split f h3 a else Inr h3)"
        and wf3: "wf_gen (Suc n) h3 ord (cap_at ord a) par lo hi a"
        and d3: "distinct (nodes_of (Suc n) h3 a)"
        and sub3: "set (nodes_of (Suc n) h3 a) \<subseteq> set (nodes_of (Suc n) h1 a) \<union> {length h1 ..< length h3}"
        and len3: "length h1 \<le> length h3"
        and ag3: "\<forall>x < length h1. x \<noteq> a \<longrightarrow> h3 ! x = h1 ! x"
        by blast
      have n: "0 < n" using wf1 by (rule wf_gen_pos)
      then obtain n' where n': "n = Suc n'" by (cases n) auto
      from wf_gen_SucD [OF wf1 [unfolded n']] have cl: "c < length h1"
        and pc: "parent (h1 ! c) = Some a" by simp_all
      have chain: "insert_median_split (k + 2 + f) h s =
          (if int (length (keys (h3 ! a))) > ord then insert_median_split f h3 a else Inr h3)" for f
      proof -
        have "insert_median_split (k + 2 + f) h s = insert_median_split (Suc (Suc f)) h1 c"
          using red [rule_format, of "Suc (Suc f)"] by (simp add: add.assoc)
        also have "\<dots> = insert_recurse (Suc f) h1 a
                 (keys (h1 ! c) ! (length (keys (h1 ! c)) div 2))
                 (take (length (keys (h1 ! c)) div 2) (keys (h1 ! c)))
                 (drop (Suc (length (keys (h1 ! c)) div 2)) (keys (h1 ! c)))"
          by (rule split_nonroot [OF cl pc ms(4)])
        also have "\<dots> = (if int (length (keys (h3 ! a))) > ord then insert_median_split f h3 a else Inr h3)"
          by (rule run3)
        finally show ?thesis .
      qed
      have frame3: "split_frame (Suc n) h a h3"
        unfolding split_frame_def
      proof (intro conjI allI impI)
        show "length h \<le> length h3" using len1 len3 by simp
        show "distinct (nodes_of (Suc n) h3 a)" by (rule d3)
        show "set (nodes_of (Suc n) h3 a) \<subseteq> set (nodes_of (Suc n) h a) \<union> {length h ..< length h3}"
          using sub3 suba1 len1 len3 by fastforce
        fix x assume x: "x < length h" "x \<notin> set (nodes_of (Suc n) h a)"
        then have "x \<noteq> a" by auto
        then have "h3 ! x = h1 ! x" using ag3 x(1) len1 by simp
        then show "h3 ! x = h ! x" using aga1 x by simp
      qed
      have le3: "int (length (keys (h3 ! a))) \<le> ord + 1"
        using wf_gen_SucD [OF wf3] by (simp add: cap_at_def)
      show ?thesis
      proof (cases "int (length (keys (h3 ! a))) > ord")
        case True
        then have "int (length (keys (h3 ! a))) = ord + 1" using le3 by simp
        moreover have "\<forall>f. insert_median_split (k + 2 + f) h s = insert_median_split f h3 a"
          using chain True by simp
        moreover have "k + 2 + 2 \<le> 2 * Suc n" using bnd by simp
        ultimately show ?thesis using frame3 wf3 by blast
      next
        case False
        have "wf_gen (Suc n) h3 ord (\<lambda>x. ord) par lo hi a"
          by (rule wf_gen_cap_weaken [OF wf3]) (use False in \<open>auto simp: cap_at_def split: if_splits\<close>)
        moreover have "\<forall>f. insert_median_split (k + 2 + f) h s = Inr h3"
          using chain False by simp
        moreover have "k + 2 + 2 \<le> 2 * Suc n" using bnd by simp
        ultimately show ?thesis using frame3 by blast
      qed
    next
      assume fin: "\<forall>f. insert_median_split (k + f) h s = Inr h1"
        and wf1: "wf_gen n h1 ord (\<lambda>x. ord) (Some a) (lower lo ?ks j) (upper ?ks hi j) c"
      have caps: "\<forall>x < length h. x \<notin> set (nodes_of n h c) \<longrightarrow>
          int (length (keys (h ! x))) \<le> cap_at ord s x \<longrightarrow>
          int (length (keys (h ! x))) \<le> ord"
        using sc by (auto simp: cap_at_def)
      from lift_child [OF wf dist j cj wf1 d1 sub1 len1 ag1 caps]
      have "wf_gen (Suc n) h1 ord (\<lambda>x. ord) par lo hi a" and "split_frame (Suc n) h a h1"
        using len1 by (simp_all add: split_frame_def)
      moreover have "k + 2 \<le> 2 * Suc n" using bnd by simp
      ultimately show ?thesis using fin by blast
    qed
  qed
qed

subsection \<open>Re-parenting a subtree\<close>

lemma wf_gen_reparent:
  assumes w: "wf_gen n h ord cap par l u x" and d: "distinct (nodes_of n h x)"
    and len: "length h \<le> length h'" and hx: "h' ! x = (h ! x)\<lparr>parent := par'\<rparr>"
    and rest: "\<forall>y \<in> set (nodes_of n h x). y \<noteq> x \<longrightarrow> h' ! y = h ! y"
    and caps: "\<forall>y \<in> set (nodes_of n h x).
        int (length (keys (h ! y))) \<le> cap y \<longrightarrow> int (length (keys (h ! y))) \<le> cap' y"
  shows "wf_gen n h' ord cap' par' l u x"
proof -
  have "0 < n" using w by (rule wf_gen_pos)
  then obtain m where n: "n = Suc m" by (cases n) auto
  note w' = w [unfolded n] and d' = d [unfolded n]
  from wf_gen_SucD [OF w'] have x: "x < length h" and ox: "order (h ! x) = ord"
    and kb: "keys_between l (keys (h ! x)) u" and cx: "int (length (keys (h ! x))) \<le> cap x"
    by simp_all
  have cx': "int (length (keys (h ! x))) \<le> cap' x" using caps cx nodes_self [of x n h] by blast
  show ?thesis
    unfolding n
  proof (rule wf_gen_SucI)
    show "x < length h'" using x len by simp
    show "children (h' ! x) = [] \<or>
      kids (\<lambda>l u c. wf_gen m h' ord cap' (Some x) l u c) l (keys (h' ! x)) (children (h' ! x)) u"
    proof (cases "children (h ! x) = []")
      case True
      then show ?thesis by (simp add: hx)
    next
      case False
      note kd = wf_gen_kids [OF w' False]
      have "kids (\<lambda>l u c. wf_gen m h' ord cap' (Some x) l u c) l (keys (h ! x)) (children (h ! x)) u"
      proof (rule kids_mono [OF kd])
        fix l u c assume c: "c \<in> set (children (h ! x))" and wc: "wf_gen m h ord cap (Some x) l u c"
        have "wf_gen m h' ord cap' (Some x) l u c \<and> nodes_of m h' c = nodes_of m h c"
        proof (rule wf_gen_frame [OF wc])
          fix y assume y: "y \<in> set (nodes_of m h c)"
          then have yn: "y \<in> set (nodes_of n h x)" using c unfolding n by auto
          have "y \<noteq> x" using distinct_nodes_root [OF d' c] y by auto
          then show "y < length h' \<and> h' ! y = h ! y \<and>
            (int (length (keys (h ! y))) \<le> cap y \<longrightarrow> int (length (keys (h ! y))) \<le> cap' y)"
            using rest caps yn wf_gen_nodes_lt [OF wc y] len by simp
        qed
        then show "wf_gen m h' ord cap' (Some x) l u c" by simp
      qed
      then show ?thesis by (simp add: hx)
    qed
  qed (simp_all add: hx ox kb cx')
qed

lemma distinct_children:
  assumes "distinct (nodes_of (Suc n) h a)"
  shows "distinct (children (h ! a))"
  unfolding distinct_conv_nth
proof (intro allI impI)
  fix i j assume ij: "i < length (children (h ! a))" "j < length (children (h ! a))" "i \<noteq> j"
  show "children (h ! a) ! i \<noteq> children (h ! a) ! j"
  proof
    assume eq: "children (h ! a) ! i = children (h ! a) ! j"
    have "set (nodes_of n h (children (h ! a) ! i)) \<inter> set (nodes_of n h (children (h ! a) ! j)) = {}"
      by (rule distinct_nodes_disjoint [OF assms ij])
    then show False using eq nodes_self [of "children (h ! a) ! j" n h] by auto
  qed
qed

lemma nodes_other_child:
  assumes d: "distinct (nodes_of (Suc n) h a)" and x: "x \<in> set (children (h ! a))"
    and y: "y \<in> set (nodes_of n h x)" and yx: "y \<noteq> x"
  shows "y \<notin> set (children (h ! a))"
proof
  assume "y \<in> set (children (h ! a))"
  then obtain i where i: "i < length (children (h ! a))" "children (h ! a) ! i = y"
    by (auto simp: in_set_conv_nth)
  from x obtain j where j: "j < length (children (h ! a))" "children (h ! a) ! j = x"
    by (auto simp: in_set_conv_nth)
  have "i \<noteq> j" using i j yx by auto
  from distinct_nodes_disjoint [OF d i(1) j(1) this]
  have "set (nodes_of n h y) \<inter> set (nodes_of n h x) = {}" using i j by simp
  then show False using y nodes_self [of y n h] by auto
qed

subsection \<open>Splitting the root\<close>

lemma root_split:
  assumes wf: "wf_gen n h ord (cap_at ord r) None lo hi r" and dist: "distinct (nodes_of n h r)"
    and lenr: "int (length (keys (h ! r))) = ord + 1" and ord: "1 \<le> ord"
  shows "\<exists>h'. (\<forall>f. insert_median_split (Suc f) h r = Inr h') \<and>
               wf_gen (Suc n) h' ord (\<lambda>x. ord) None lo hi r"
proof -
  have "0 < n" using wf by (rule wf_gen_pos)
  then obtain m where n: "n = Suc m" by (cases n) auto
  note wf' = wf [unfolded n] and dist' = dist [unfolded n]
  let ?ks = "keys (h ! r)" and ?cs = "children (h ! r)"
  define mi where "mi = length ?ks div 2"
  note ms = median_sizes [OF lenr ord, folded mi_def]
  from wf_gen_SucD [OF wf'] have r: "r < length h" and orr: "order (h ! r) = ord"
    and pr: "parent (h ! r) = None" and kb: "keys_between lo ?ks hi" by simp_all
  note sp = keys_between_split [OF kb ms(1)]
  define L where "L = length h"
  define R where "R = Suc (length h)"
  define nl where "nl = \<lparr>order = ord, keys = take mi ?ks, children = take (Suc mi) ?cs, parent = Some r\<rparr>"
  define nr where "nr = \<lparr>order = ord, keys = drop (Suc mi) ?ks, children = drop (Suc mi) ?cs, parent = Some r\<rparr>"
  define h3 where "h3 = (h @ [nl, nr])[r := (h ! r)\<lparr>keys := [?ks ! mi], children := [L, R]\<rparr>]"
  define h4 where "h4 = foldl (set_parent L) h3 (take (Suc mi) ?cs)"
  define h5 where "h5 = foldl (set_parent R) h4 (drop (Suc mi) ?cs)"
  have cs_lt: "x < length h" if "x \<in> set ?cs" for x
  proof -
    have "x \<in> set (nodes_of (Suc m) h r)" using that nodes_self [of x m h] by auto
    then show ?thesis using wf_gen_nodes_lt [OF wf'] by blast
  qed
  have r_cs: "r \<notin> set ?cs"
  proof
    assume "r \<in> set ?cs"
    then have "r \<notin> set (nodes_of m h r)" using distinct_nodes_root [OF dist'] by blast
    then show False using nodes_self by blast
  qed
  have dcs: "distinct ?cs" using dist' by (rule distinct_children)
  have disj: "set (take (Suc mi) ?cs) \<inter> set (drop (Suc mi) ?cs) = {}"
    using dcs by (rule set_take_disj_set_drop_if_distinct) simp
  have len3: "length h3 = length h + 2" by (simp add: h3_def)
  have h3r: "h3 ! r = (h ! r)\<lparr>keys := [?ks ! mi], children := [L, R]\<rparr>" using r by (simp add: h3_def)
  have h3x: "h3 ! x = h ! x" if "x < length h" "x \<noteq> r" for x
    using that by (simp add: h3_def nth_append)
  have h3L: "h3 ! L = nl" using r by (simp add: h3_def L_def nth_append)
  have h3R: "h3 ! R = nr" using r by (simp add: h3_def R_def nth_append)
  from foldl_set_parent [of L h3 "take (Suc mi) ?cs"] have len4: "length h4 = length h3"
    and h4x: "\<And>x. x < length h3 \<Longrightarrow>
      h4 ! x = (if x \<in> set (take (Suc mi) ?cs) then (h3 ! x)\<lparr>parent := Some L\<rparr> else h3 ! x)"
    by (simp_all add: h4_def)
  from foldl_set_parent [of R h4 "drop (Suc mi) ?cs"] have len5: "length h5 = length h4"
    and h5x: "\<And>x. x < length h4 \<Longrightarrow>
      h5 ! x = (if x \<in> set (drop (Suc mi) ?cs) then (h4 ! x)\<lparr>parent := Some R\<rparr> else h4 ! x)"
    by (simp_all add: h5_def)
  have LR_cs: "L \<notin> set ?cs" "R \<notin> set ?cs"
    using cs_lt [of L] cs_lt [of R] by (auto simp: L_def R_def)
  have LR_td: "L \<notin> set (take (Suc mi) ?cs)" "L \<notin> set (drop (Suc mi) ?cs)"
    "R \<notin> set (take (Suc mi) ?cs)" "R \<notin> set (drop (Suc mi) ?cs)"
    "r \<notin> set (take (Suc mi) ?cs)" "r \<notin> set (drop (Suc mi) ?cs)"
    using LR_cs r_cs by (auto dest: in_set_takeD in_set_dropD)
  have Ll: "L < length h3" and Rl: "R < length h3" by (simp_all add: len3 L_def R_def)
  have h4R: "h4 ! R = nr" using h4x [OF Rl] LR_td by (simp add: h3R)
  have e1: "insert_fix_parent_refs h3 L = Inr h4"
    using Ll by (simp add: insert_fix_parent_refs_def load_in h3L nl_def h4_def)
  have e2: "insert_fix_parent_refs h4 R = Inr h5"
    using Rl len4 by (simp add: insert_fix_parent_refs_def load_in h4R nr_def h5_def)
  have run: "insert_median_split (Suc f) h r = Inr h5" for f
  proof -
    have nle: "\<not> length ?ks \<le> length ?ks div 2" using ms(1) by (simp add: mi_def)
    have "insert_median_split (Suc f) h r =
        (case insert_fix_parent_refs h3 L of Inl e \<Rightarrow> Inl e | Inr h4 \<Rightarrow> insert_fix_parent_refs h4 R)"
      using r pr orr nle
      by (simp add: load_in Let_def BTree_def h3_def nl_def nr_def L_def R_def mi_def
            cong: sum.case_cong)
    then show ?thesis by (simp add: e1 e2)
  qed
  have l5: "length h5 = length h + 2" using len3 len4 len5 by simp
  have h5r: "h5 ! r = (h ! r)\<lparr>keys := [?ks ! mi], children := [L, R]\<rparr>"
    using h5x [of r] h4x [of r] r LR_td len3 len4 by (simp add: h3r)
  have h5L: "h5 ! L = nl"
    using h5x [of L] h4x [OF Ll] LR_td Ll len4 by (simp add: h3L)
  have h5R: "h5 ! R = nr"
    using h5x [of R] LR_td Rl len4 by (simp add: h4R)
  have h5left: "h5 ! x = (h ! x)\<lparr>parent := Some L\<rparr>" if "x \<in> set (take (Suc mi) ?cs)" for x
  proof -
    have xc: "x \<in> set ?cs" using that by (rule in_set_takeD)
    then have xl: "x < length h" by (rule cs_lt)
    have "x \<notin> set (drop (Suc mi) ?cs)" using that disj by auto
    moreover have "x \<noteq> r" using xc r_cs by auto
    ultimately show ?thesis
      using h5x [of x] h4x [of x] that xl len3 len4 h3x [of x] by simp
  qed
  have h5right: "h5 ! x = (h ! x)\<lparr>parent := Some R\<rparr>" if "x \<in> set (drop (Suc mi) ?cs)" for x
  proof -
    have xc: "x \<in> set ?cs" using that by (rule in_set_dropD)
    then have xl: "x < length h" by (rule cs_lt)
    have "x \<notin> set (take (Suc mi) ?cs)" using that disj by auto
    moreover have "x \<noteq> r" using xc r_cs by auto
    ultimately show ?thesis
      using h5x [of x] h4x [of x] that xl len3 len4 h3x [of x] by simp
  qed
  have h5other: "h5 ! x = h ! x" if "x < length h" "x \<noteq> r" "x \<notin> set ?cs" for x
  proof -
    have "x \<notin> set (take (Suc mi) ?cs)" "x \<notin> set (drop (Suc mi) ?cs)"
      using that(3) by (auto dest: in_set_takeD in_set_dropD)
    then show ?thesis using h5x [of x] h4x [of x] that len3 len4 h3x [of x] by simp
  qed
  have repar: "wf_gen m h5 ord (\<lambda>x. ord) (Some p) l u x"
    if xc: "x \<in> set ?cs" and hx: "h5 ! x = (h ! x)\<lparr>parent := Some p\<rparr>"
      and w: "wf_gen m h ord (cap_at ord r) (Some r) l u x" for p l u x
  proof (rule wf_gen_reparent [OF w _ _ hx])
    show "distinct (nodes_of m h x)" using distinct_nodes_root [OF dist' xc] by simp
    show "length h \<le> length h5" using l5 by simp
    have rn: "r \<notin> set (nodes_of m h x)" using distinct_nodes_root [OF dist' xc] by simp
    show "\<forall>y \<in> set (nodes_of m h x). y \<noteq> x \<longrightarrow> h5 ! y = h ! y"
    proof (intro ballI impI)
      fix y assume y: "y \<in> set (nodes_of m h x)" "y \<noteq> x"
      have "y \<notin> set ?cs" by (rule nodes_other_child [OF dist' xc y])
      moreover have "y \<noteq> r" using rn y(1) by auto
      moreover have "y < length h" using wf_gen_nodes_lt [OF w y(1)] .
      ultimately show "h5 ! y = h ! y" using h5other by simp
    qed
    show "\<forall>y \<in> set (nodes_of m h x).
        int (length (keys (h ! y))) \<le> cap_at ord r y \<longrightarrow> int (length (keys (h ! y))) \<le> ord"
      using rn by (auto simp: cap_at_def)
  qed
  have wfL: "wf_gen n h5 ord (\<lambda>x. ord) (Some r) lo (Some (?ks ! mi)) L"
    unfolding n
  proof (rule wf_gen_SucI)
    show "L < length h5" using l5 by (simp add: L_def)
    show "int (length (keys (h5 ! L))) \<le> ord" using ms(1,2) by (simp add: h5L nl_def)
    show "children (h5 ! L) = [] \<or>
      kids (\<lambda>l u c. wf_gen m h5 ord (\<lambda>x. ord) (Some L) l u c) lo (keys (h5 ! L)) (children (h5 ! L))
        (Some (?ks ! mi))"
    proof (cases "?cs = []")
      case True
      then show ?thesis by (simp add: h5L nl_def)
    next
      case False
      note kd = wf_gen_kids [OF wf' False]
      have "kids (\<lambda>l u c. wf_gen m h5 ord (\<lambda>x. ord) (Some L) l u c) lo (take mi ?ks)
          (take (Suc mi) ?cs) (Some (?ks ! mi))"
      proof (rule kids_mono [OF kids_take [OF kd ms(1)]])
        fix l u c assume c: "c \<in> set (take (Suc mi) ?cs)"
          and w: "wf_gen m h ord (cap_at ord r) (Some r) l u c"
        show "wf_gen m h5 ord (\<lambda>x. ord) (Some L) l u c"
          by (rule repar [OF in_set_takeD [OF c] h5left [OF c] w])
      qed
      then show ?thesis by (simp add: h5L nl_def)
    qed
  qed (simp_all add: h5L nl_def sp)
  have wfR: "wf_gen n h5 ord (\<lambda>x. ord) (Some r) (Some (?ks ! mi)) hi R"
    unfolding n
  proof (rule wf_gen_SucI)
    show "R < length h5" using l5 by (simp add: R_def)
    show "int (length (keys (h5 ! R))) \<le> ord" using ms(1,3) by (simp add: h5R nr_def)
    show "children (h5 ! R) = [] \<or>
      kids (\<lambda>l u c. wf_gen m h5 ord (\<lambda>x. ord) (Some R) l u c) (Some (?ks ! mi)) (keys (h5 ! R))
        (children (h5 ! R)) hi"
    proof (cases "?cs = []")
      case True
      then show ?thesis by (simp add: h5R nr_def)
    next
      case False
      note kd = wf_gen_kids [OF wf' False]
      have "kids (\<lambda>l u c. wf_gen m h5 ord (\<lambda>x. ord) (Some R) l u c) (Some (?ks ! mi))
          (drop (Suc mi) ?ks) (drop (Suc mi) ?cs) hi"
      proof (rule kids_mono [OF kids_drop [OF kd ms(1)]])
        fix l u c assume c: "c \<in> set (drop (Suc mi) ?cs)"
          and w: "wf_gen m h ord (cap_at ord r) (Some r) l u c"
        show "wf_gen m h5 ord (\<lambda>x. ord) (Some R) l u c"
          by (rule repar [OF in_set_dropD [OF c] h5right [OF c] w])
      qed
      then show ?thesis by (simp add: h5R nr_def)
    qed
  qed (simp_all add: h5R nr_def sp)
  have kbr: "keys_between lo [?ks ! mi] hi"
    using sp(3,4) by (simp add: keys_between_def)
  have "wf_gen (Suc n) h5 ord (\<lambda>x. ord) None lo hi r"
  proof (rule wf_gen_SucI)
    show "r < length h5" using r l5 by simp
    show "int (length (keys (h5 ! r))) \<le> ord" using ord by (simp add: h5r)
    show "children (h5 ! r) = [] \<or>
      kids (\<lambda>l u c. wf_gen n h5 ord (\<lambda>x. ord) (Some r) l u c) lo (keys (h5 ! r)) (children (h5 ! r)) hi"
      using wfL wfR by (simp add: h5r)
  qed (simp_all add: h5r orr pr kbr)
  then show ?thesis using run by blast
qed

subsection \<open>The descent to a leaf\<close>

lemma wf_gen_capacity:
  "wf_gen n h ord (\<lambda>x. ord) par lo hi a \<Longrightarrow> capacity_ok n h a"
proof (induction n arbitrary: par lo hi a)
  case 0
  then show ?case by (simp add: wf_gen.simps)
next
  case (Suc n)
  from wf_gen_SucD [OF Suc.prems] have b: "a < length h" "order (h ! a) = ord"
    "int (length (keys (h ! a))) \<le> ord" by simp_all
  have "capacity_ok n h c" if c: "c \<in> set (children (h ! a))" for c
  proof -
    have "children (h ! a) \<noteq> []" using c by auto
    from kids_elem [OF wf_gen_kids [OF Suc.prems this] c]
    obtain l u where "wf_gen n h ord (\<lambda>x. ord) (Some a) l u c" by blast
    then show ?thesis by (rule Suc.IH)
  qed
  then show ?case using b by (simp add: list_all_iff)
qed

lemma wf_gen_node_cap:
  "wf_gen n h ord cap par lo hi a \<Longrightarrow> x \<in> set (nodes_of n h a) \<Longrightarrow>
   int (length (keys (h ! x))) \<le> cap x"
proof (induction n arbitrary: par lo hi a)
  case 0
  then show ?case by (simp add: wf_gen.simps)
next
  case (Suc n)
  show ?case
  proof (cases "x = a")
    case True
    then show ?thesis using wf_gen_SucD [OF Suc.prems(1)] by simp
  next
    case False
    then obtain c where c: "c \<in> set (children (h ! a))" "x \<in> set (nodes_of n h c)"
      using Suc.prems(2) by auto
    then have "children (h ! a) \<noteq> []" by auto
    from kids_elem [OF wf_gen_kids [OF Suc.prems(1) this] c(1)]
    obtain l u where "wf_gen n h ord cap (Some a) l u c" by blast
    then show ?thesis using Suc.IH c(2) by blast
  qed
qed

declare insert_bt.simps [simp del] insert_median_split.simps [simp del]
  insert_recurse.simps [simp del]

lemma descend:
  assumes "wf_gen n h ord (\<lambda>x. ord) par lo hi a" "distinct (nodes_of n h a)"
    "above lo v" "below hi v"
  shows "(\<forall>f. insert_bt (n + f) h a v = Inr (False, h)) \<or>
         (\<exists>k s h1. leaf_outcome n h ord par lo hi a v k s h1)"
  using assms
proof (induction n arbitrary: par lo hi a)
  case 0
  then show ?case by (simp add: wf_gen.simps)
next
  case (Suc n)
  note wf = Suc.prems(1) and dist = Suc.prems(2) and av = Suc.prems(3) and bv = Suc.prems(4)
  let ?ks = "keys (h ! a)" and ?cs = "children (h ! a)"
  from wf_gen_SucD [OF wf] have a: "a < length h" and oa: "order (h ! a) = ord"
    and pa: "parent (h ! a) = par" and kb: "keys_between lo ?ks hi"
    and capa: "int (length ?ks) \<le> ord" by simp_all
  from scan_keys_cases [OF kb av bv] show ?case
  proof (elim disjE exE conjE)
    fix i assume "scan_keys ?ks v = Found i"
    then have "\<forall>f. insert_bt (Suc n + f) h a v = Inr (False, h)"
      using a by (simp add: load_in insert_bt.simps)
    then show ?thesis by blast
  next
    fix j assume jle: "j \<le> length ?ks"
      and sc: "scan_keys ?ks v = (if j < length ?ks then Greater j else Exhausted)"
      and aj: "above (lower lo ?ks j) v" and bj: "below (upper ?ks hi j) v"
    show ?thesis
    proof (cases "?cs = []")
      case True
      define ks' where "ks' = take j ?ks @ v # drop j ?ks"
      define h1 where "h1 = h[a := (h ! a)\<lparr>keys := ks'\<rparr>]"
      have h1a: "h1 ! a = (h ! a)\<lparr>keys := ks'\<rparr>" using a by (simp add: h1_def)
      have run: "insert_bt (1 + f) h a v =
          (if int (length (keys (h1 ! a))) > ord
           then (case insert_median_split f h1 a of Inl e \<Rightarrow> Inl e | Inr h2 \<Rightarrow> Inr (True, h2))
           else Inr (True, h1))" for f
      proof (cases "j < length ?ks")
        case T: True
        then show ?thesis
          using a oa sc True
          by (simp add: load_in Let_def h1a insert_bt.simps) (simp add: h1_def ks'_def)
      next
        case F: False
        then have "take j ?ks = ?ks" "drop j ?ks = []" using jle by simp_all
        then show ?thesis
          using a oa sc F True
          by (simp add: load_in Let_def h1a insert_bt.simps) (simp add: h1_def ks'_def)
      qed
      have wf1: "wf_gen (Suc n) h1 ord (cap_at ord a) par lo hi a"
      proof (rule wf_gen_SucI)
        show "a < length h1" using a by (simp add: h1_def)
        show "keys_between lo (keys (h1 ! a)) hi"
          using keys_between_insert [OF kb jle aj bj] by (simp add: h1a ks'_def)
        show "int (length (keys (h1 ! a))) \<le> cap_at ord a a"
          using capa by (simp add: h1a ks'_def cap_at_def)
      qed (simp_all add: h1a oa pa True)
      have n1: "nodes_of (Suc n) h1 a = nodes_of (Suc n) h a"
        using True by (simp add: h1a)
      have "leaf_outcome (Suc n) h ord par lo hi a v 1 a h1"
        unfolding leaf_outcome_def
      proof (intro conjI)
        show "a \<in> set (nodes_of (Suc n) h a)" by simp
        show "length h1 = length h" by (simp add: h1_def)
        show "\<forall>x < length h. x \<noteq> a \<longrightarrow> h1 ! x = h ! x" by (simp add: h1_def)
        show "\<forall>f. insert_bt (1 + f) h a v =
           (if int (length (keys (h1 ! a))) > ord
            then (case insert_median_split f h1 a of Inl e \<Rightarrow> Inl e | Inr h2 \<Rightarrow> Inr (True, h2))
            else Inr (True, h1))" using run by blast
        show "nodes_of (Suc n) h1 a = nodes_of (Suc n) h a" by (rule n1)
        show "wf_gen (Suc n) h1 ord (cap_at ord a) par lo hi a" by (rule wf1)
      qed simp_all
      then show ?thesis by blast
    next
      case False
      note kd = wf_gen_kids [OF wf False]
      have lencs: "length ?cs = Suc (length ?ks)" using kd by (rule kids_length)
      have j: "j < length ?cs" using jle lencs by simp
      define c where "c = ?cs ! j"
      have cj: "?cs ! j = c" by (simp add: c_def)
      have cmem: "c \<in> set ?cs" using j by (simp add: c_def)
      have wfc: "wf_gen n h ord (\<lambda>x. ord) (Some a) (lower lo ?ks j) (upper ?ks hi j) c"
        using kd j by (simp add: kids_nth c_def)
      have dc: "distinct (nodes_of n h c)" and anc: "a \<notin> set (nodes_of n h c)"
        using distinct_nodes_root [OF dist cmem] by simp_all
      have step: "insert_bt (Suc f) h a v = insert_bt f h c v" for f
      proof (cases "j < length ?ks")
        case True
        then show ?thesis using a sc False j by (simp add: load_in c_def insert_bt.simps)
      next
        case F: False
        then have "j = length ?ks" using jle by simp
        then have "last ?cs = c" using False lencs by (simp add: last_conv_nth c_def)
        then show ?thesis using a sc False F by (simp add: load_in insert_bt.simps)
      qed
      from Suc.IH [OF wfc dc aj bj] show ?thesis
      proof (elim disjE exE)
        assume "\<forall>f. insert_bt (n + f) h c v = Inr (False, h)"
        then have "\<forall>f. insert_bt (Suc n + f) h a v = Inr (False, h)" using step by simp
        then show ?thesis by blast
      next
        fix k s h1
        assume lo: "leaf_outcome n h ord (Some a) (lower lo ?ks j) (upper ?ks hi j) c v k s h1"
        then have k: "1 \<le> k" "k \<le> n" and s0: "s \<in> set (nodes_of n h c)"
          and ne: "nodes_of n h1 c = nodes_of n h c"
          and l1: "length h1 = length h" and ag: "\<forall>x < length h. x \<noteq> s \<longrightarrow> h1 ! x = h ! x"
          and wf1: "wf_gen n h1 ord (cap_at ord s) (Some a) (lower lo ?ks j) (upper ?ks hi j) c"
          and run: "\<forall>f. insert_bt (k + f) h c v =
           (if int (length (keys (h1 ! s))) > ord
            then (case insert_median_split f h1 s of Inl e \<Rightarrow> Inl e | Inr h2 \<Rightarrow> Inr (True, h2))
            else Inr (True, h1))"
          by (simp_all add: leaf_outcome_def)
        have d1: "distinct (nodes_of n h1 c)" using dc ne by simp
        have sub1: "set (nodes_of n h1 c) \<subseteq> set (nodes_of n h c) \<union> {length h ..< length h1}"
          using ne by simp
        have len1: "length h \<le> length h1" using l1 by simp
        have ag1: "\<forall>x < length h. x \<notin> set (nodes_of n h c) \<longrightarrow> h1 ! x = h ! x"
          using ag s0 by auto
        have caps: "\<forall>x < length h. x \<notin> set (nodes_of n h c) \<longrightarrow>
            int (length (keys (h ! x))) \<le> ord \<longrightarrow> int (length (keys (h ! x))) \<le> cap_at ord s x"
          by (simp add: cap_at_def)
        from lift_child [OF wf dist j cj wf1 d1 sub1 len1 ag1 caps] ne
        have wfa1: "wf_gen (Suc n) h1 ord (cap_at ord s) par lo hi a"
          and na1: "nodes_of (Suc n) h1 a = nodes_of (Suc n) h a" by simp_all
        have "leaf_outcome (Suc n) h ord par lo hi a v (Suc k) s h1"
          unfolding leaf_outcome_def
        proof (intro conjI)
          show "s \<in> set (nodes_of (Suc n) h a)" using s0 cmem by auto
          show "\<forall>f. insert_bt (Suc k + f) h a v =
           (if int (length (keys (h1 ! s))) > ord
            then (case insert_median_split f h1 s of Inl e \<Rightarrow> Inl e | Inr h2 \<Rightarrow> Inr (True, h2))
            else Inr (True, h1))" using run step by simp
          show "nodes_of (Suc n) h1 a = nodes_of (Suc n) h a" by (rule na1)
          show "wf_gen (Suc n) h1 ord (cap_at ord s) par lo hi a" by (rule wfa1)
        qed (use k l1 ag in simp_all)
        then show ?thesis by blast
      qed
    qed
  qed
qed

subsection \<open>The insertion theorem\<close>

lemma insert_wf:
  assumes wf: "wf_gen n h ord (\<lambda>x. ord) None None None a" and dist: "distinct (nodes_of n h a)"
    and ord: "1 \<le> ord"
  shows "\<exists>b h'. (\<forall>f. insert_bt (3 * n + f) h a v = Inr (b, h')) \<and>
                 wf_gen (Suc n) h' ord (\<lambda>x. ord) None None None a"
proof -
  have av: "above None v" and bv: "below None v" by (simp_all add: above_def below_def)
  from descend [OF wf dist av bv] show ?thesis
  proof (elim disjE exE)
    assume "\<forall>f. insert_bt (n + f) h a v = Inr (False, h)"
    then have "insert_bt (3 * n + f) h a v = Inr (False, h)" for f
      by (metis add.assoc mult_Suc numeral_3_eq_3 mult_2 mult.commute add.commute)
    then show ?thesis using wf_gen_mono [OF wf] by blast
  next
    fix k s h1 assume "leaf_outcome n h ord None None None a v k s h1"
    then have k: "1 \<le> k" "k \<le> n" and s0: "s \<in> set (nodes_of n h a)"
      and ne: "nodes_of n h1 a = nodes_of n h a"
      and wf1: "wf_gen n h1 ord (cap_at ord s) None None None a"
      and run: "\<And>f. insert_bt (k + f) h a v =
           (if int (length (keys (h1 ! s))) > ord
            then (case insert_median_split f h1 s of Inl e \<Rightarrow> Inl e | Inr h2 \<Rightarrow> Inr (True, h2))
            else Inr (True, h1))"
      by (simp_all add: leaf_outcome_def)
    have d1: "distinct (nodes_of n h1 a)" and s1: "s \<in> set (nodes_of n h1 a)"
      using dist s0 ne by simp_all
    show ?thesis
    proof (cases "int (length (keys (h1 ! s))) > ord")
      case False
      have w: "wf_gen n h1 ord (\<lambda>x. ord) None None None a"
        by (rule wf_gen_cap_weaken [OF wf1]) (use False in \<open>auto simp: cap_at_def split: if_splits\<close>)
      have "insert_bt (3 * n + f) h a v = Inr (True, h1)" for f
      proof -
        obtain d where "3 * n + f = k + d" using k(2) by (metis le_add1 le_iff_add le_trans mult_Suc numeral_3_eq_3 add.assoc)
        then show ?thesis using run [of d] False by simp
      qed
      then show ?thesis using wf_gen_mono [OF w] by blast
    next
      case True
      have "int (length (keys (h1 ! s))) \<le> ord + 1"
        using wf_gen_node_cap [OF wf1 s1] by (simp add: cap_at_def)
      then have lens: "int (length (keys (h1 ! s))) = ord + 1" using True by simp
      from split_up [OF wf1 d1 s1 lens ord] obtain k2 h2 where
        k2: "k2 + 2 \<le> 2 * n" and fr: "split_frame n h1 a h2"
        and alt: "(\<forall>f. insert_median_split (k2 + f) h1 s = insert_median_split f h2 a) \<and>
            wf_gen n h2 ord (cap_at ord a) None None None a \<and>
            int (length (keys (h2 ! a))) = ord + 1
          \<or> (\<forall>f. insert_median_split (k2 + f) h1 s = Inr h2) \<and>
            wf_gen n h2 ord (\<lambda>x. ord) None None None a"
        by blast
      have fuel: "\<exists>d. 3 * n + f = k + (k2 + Suc d)" for f
      proof -
        have "k + (k2 + 1) \<le> 3 * n + f" using k(2) k2 by simp
        then obtain d where "3 * n + f = k + (k2 + 1) + d" using le_Suc_ex by blast
        then have "3 * n + f = k + (k2 + Suc d)" by simp
        then show ?thesis by blast
      qed
      from alt show ?thesis
      proof (elim disjE conjE)
        assume red: "\<forall>f. insert_median_split (k2 + f) h1 s = insert_median_split f h2 a"
          and wf2: "wf_gen n h2 ord (cap_at ord a) None None None a"
          and len2: "int (length (keys (h2 ! a))) = ord + 1"
        have d2: "distinct (nodes_of n h2 a)" using fr by (simp add: split_frame_def)
        from root_split [OF wf2 d2 len2 ord] obtain h' where
          rs: "\<And>f. insert_median_split (Suc f) h2 a = Inr h'"
          and wf': "wf_gen (Suc n) h' ord (\<lambda>x. ord) None None None a" by blast
        have "insert_bt (3 * n + f) h a v = Inr (True, h')" for f
        proof -
          from fuel [of f] obtain d where d: "3 * n + f = k + (k2 + Suc d)" by blast
          have "insert_median_split (k2 + Suc d) h1 s = Inr h'" using red [rule_format, of "Suc d"] rs [of d] by (simp del: add_Suc_right)
          then show ?thesis using run [of "k2 + Suc d"] True d by simp
        qed
        then show ?thesis using wf' by blast
      next
        assume fin: "\<forall>f. insert_median_split (k2 + f) h1 s = Inr h2"
          and wf2: "wf_gen n h2 ord (\<lambda>x. ord) None None None a"
        have "insert_bt (3 * n + f) h a v = Inr (True, h2)" for f
        proof -
          from fuel [of f] obtain d where d: "3 * n + f = k + (k2 + Suc d)" by blast
          have "insert_median_split (k2 + Suc d) h1 s = Inr h2" using fin [rule_format, of "Suc d"] by (simp del: add_Suc_right)
          then show ?thesis using run [of "k2 + Suc d"] True d by simp
        qed
        then show ?thesis using wf_gen_mono [OF wf2] by blast
      qed
    qed
  qed
qed

text \<open>
  Claim C7.  After every completed \<open>insert\<close> call on a well-formed tree, every
  node holds at most \<open>order\<close> keys.  For a well-formed tree of depth at most
  \<open>n\<close> the call returns with any recursion budget of at least \<open>3 * n\<close>, its
  result does not depend on the budget, and in the resulting heap every node
  reachable from the root holds at most \<open>order\<close> keys.
\<close>

theorem insert_keeps_capacity:
  assumes "well_formed n h a"
  shows "\<exists>b h'. (\<forall>f. insert_bt (3 * n + f) h a v = Inr (b, h')) \<and> capacity_ok (Suc n) h' a"
proof -
  from assms have "wf_gen n h (order (h ! a)) (\<lambda>x. order (h ! a)) None None None a"
    and "distinct (nodes_of n h a)" and "1 \<le> order (h ! a)"
    by (simp_all add: well_formed_def)
  from insert_wf [OF this] obtain b h' where
    "\<forall>f. insert_bt (3 * n + f) h a v = Inr (b, h')"
    "wf_gen (Suc n) h' (order (h ! a)) (\<lambda>x. order (h ! a)) None None None a" by blast
  then show ?thesis using wf_gen_capacity by blast
qed

text \<open>
  The theorem at a tree of order 2 whose rightmost leaf is full: inserting 7
  splits that leaf and then the root.
\<close>

theorem insert_keeps_capacity_witness:
  "well_formed 2
     [\<lparr>order = 2, keys = [2, 4], children = [1, 2, 3], parent = None\<rparr>,
      \<lparr>order = 2, keys = [1], children = [], parent = Some 0\<rparr>,
      \<lparr>order = 2, keys = [3], children = [], parent = Some 0\<rparr>,
      \<lparr>order = 2, keys = [5, 6], children = [], parent = Some 0\<rparr>] 0 \<and>
   (\<exists>b h'. (\<forall>f. insert_bt (3 * 2 + f)
     [\<lparr>order = 2, keys = [2, 4], children = [1, 2, 3], parent = None\<rparr>,
      \<lparr>order = 2, keys = [1], children = [], parent = Some 0\<rparr>,
      \<lparr>order = 2, keys = [3], children = [], parent = Some 0\<rparr>,
      \<lparr>order = 2, keys = [5, 6], children = [], parent = Some 0\<rparr>] 0 7 = Inr (b, h')) \<and>
     capacity_ok (Suc 2) h' 0)"
proof -
  let ?h = "[\<lparr>order = 2, keys = [2, 4], children = [1, 2, 3], parent = None\<rparr>,
      \<lparr>order = 2, keys = [1], children = [], parent = Some 0\<rparr>,
      \<lparr>order = 2, keys = [3], children = [], parent = Some 0\<rparr>,
      \<lparr>order = 2, keys = [5, 6], children = [], parent = Some (0::nat)\<rparr>]"
  have wf: "well_formed 2 ?h 0" by code_simp
  show ?thesis using wf insert_keeps_capacity [OF wf, of 7] by blast
qed

end
